theory Spec2Isabelle
  imports Complex_Main "HOL-Library.Word" "HOL-Library.Sublist" "HOL-Library.Multiset"
begin

section \<open>JavaScript numbers\<close>

text \<open>
  A TypeScript \<open>number\<close> is either finite, one of the two infinities, or NaN.  Finite
  values are modelled by the reals (rounding is abstracted away; every integer that occurs
  in the pipeline is far below \<open>2^53\<close> and therefore exact).  Negative zero is identified
  with zero: the divisors of this program are sums of squares, products of square roots
  and array lengths, none of which is \<open>-0\<close>.
\<close>

datatype number = NaN | NInf | Fin real | PInf

fun num_neg :: "number \<Rightarrow> number" where
  "num_neg NaN = NaN"
| "num_neg NInf = PInf"
| "num_neg PInf = NInf"
| "num_neg (Fin a) = Fin (- a)"

fun num_add :: "number \<Rightarrow> number \<Rightarrow> number" where
  "num_add NaN _ = NaN"
| "num_add _ NaN = NaN"
| "num_add (Fin a) (Fin b) = Fin (a + b)"
| "num_add PInf NInf = NaN"
| "num_add NInf PInf = NaN"
| "num_add PInf _ = PInf"
| "num_add NInf _ = NInf"
| "num_add (Fin a) b = b"

definition num_sub :: "number \<Rightarrow> number \<Rightarrow> number" where
  "num_sub a b = num_add a (num_neg b)"

fun num_mul :: "number \<Rightarrow> number \<Rightarrow> number" where
  "num_mul NaN _ = NaN"
| "num_mul _ NaN = NaN"
| "num_mul (Fin a) (Fin b) = Fin (a * b)"
| "num_mul (Fin a) PInf = (if a = 0 then NaN else if 0 < a then PInf else NInf)"
| "num_mul (Fin a) NInf = (if a = 0 then NaN else if 0 < a then NInf else PInf)"
| "num_mul PInf (Fin b) = (if b = 0 then NaN else if 0 < b then PInf else NInf)"
| "num_mul NInf (Fin b) = (if b = 0 then NaN else if 0 < b then NInf else PInf)"
| "num_mul PInf PInf = PInf"
| "num_mul NInf NInf = PInf"
| "num_mul PInf NInf = NInf"
| "num_mul NInf PInf = NInf"

fun num_div :: "number \<Rightarrow> number \<Rightarrow> number" where
  "num_div NaN _ = NaN"
| "num_div _ NaN = NaN"
| "num_div (Fin a) (Fin b) =
     (if b \<noteq> 0 then Fin (a / b)
      else if 0 < a then PInf else if a < 0 then NInf else NaN)"
| "num_div (Fin a) _ = Fin 0"
| "num_div PInf (Fin b) = (if 0 \<le> b then PInf else NInf)"
| "num_div NInf (Fin b) = (if 0 \<le> b then NInf else PInf)"
| "num_div _ _ = NaN"

text \<open>\<open>a < b\<close>; every comparison with NaN is false.\<close>

fun num_lt :: "number \<Rightarrow> number \<Rightarrow> bool" where
  "num_lt NaN _ = False"
| "num_lt _ NaN = False"
| "num_lt (Fin a) (Fin b) = (a < b)"
| "num_lt NInf NInf = False"
| "num_lt NInf _ = True"
| "num_lt _ NInf = False"
| "num_lt PInf _ = False"
| "num_lt (Fin a) PInf = True"

definition num_gt :: "number \<Rightarrow> number \<Rightarrow> bool" where
  "num_gt a b = num_lt b a"

text \<open>\<open>a <= b\<close> and \<open>a >= b\<close>.\<close>

definition num_le :: "number \<Rightarrow> number \<Rightarrow> bool" where
  "num_le a b = (a \<noteq> NaN \<and> b \<noteq> NaN \<and> \<not> num_lt b a)"

definition num_ge :: "number \<Rightarrow> number \<Rightarrow> bool" where
  "num_ge a b = num_le b a"

text \<open>\<open>Math.min\<close> and \<open>Math.max\<close> of two arguments: NaN if either argument is NaN.\<close>

definition math_min :: "number \<Rightarrow> number \<Rightarrow> number" where
  "math_min a b = (if a = NaN \<or> b = NaN then NaN else if num_lt b a then b else a)"

definition math_max :: "number \<Rightarrow> number \<Rightarrow> number" where
  "math_max a b = (if a = NaN \<or> b = NaN then NaN else if num_lt a b then b else a)"

text \<open>The variadic forms \<open>Math.min(...xs)\<close> and \<open>Math.max(...xs)\<close>.\<close>

definition math_min_list :: "number list \<Rightarrow> number" where
  "math_min_list xs = fold (\<lambda>v acc. math_min acc v) xs PInf"

definition math_max_list :: "number list \<Rightarrow> number" where
  "math_max_list xs = fold (\<lambda>v acc. math_max acc v) xs NInf"

fun math_abs :: "number \<Rightarrow> number" where
  "math_abs NaN = NaN"
| "math_abs NInf = PInf"
| "math_abs PInf = PInf"
| "math_abs (Fin a) = Fin \<bar>a\<bar>"

fun math_sqrt :: "number \<Rightarrow> number" where
  "math_sqrt NaN = NaN"
| "math_sqrt NInf = NaN"
| "math_sqrt PInf = PInf"
| "math_sqrt (Fin a) = (if a < 0 then NaN else Fin (sqrt a))"

fun math_acos :: "number \<Rightarrow> number" where
  "math_acos (Fin a) = (if a < -1 \<or> 1 < a then NaN else Fin (arccos a))"
| "math_acos _ = NaN"

abbreviation of_int_num :: "int \<Rightarrow> number" where
  "of_int_num i \<equiv> Fin (real_of_int i)"

section \<open>Data model\<close>

text \<open>A pixel position (\<open>interface Point\<close>; the fields \<open>x\<close> and \<open>y\<close>).\<close>

record point =
  px :: int
  py :: int

datatype shape_type = Circle | Triangle | Rectangle | Pentagon | Star

record bounding_box =
  box_x :: number
  box_y :: number
  box_width :: number
  box_height :: number

record center_point =
  cx :: number
  cy :: number

record detected_shape =
  shapeType :: shape_type
  confidence :: number
  boundingBox :: bounding_box
  center :: center_point
  area :: number

record detection_result =
  shapes :: "detected_shape list"
  processingTime :: real
  imageWidth :: int
  imageHeight :: int

text \<open>\<open>ImageData\<close>: the RGBA bytes and the dimensions.\<close>

record image_data =
  img_data :: "8 word list"
  img_width :: int
  img_height :: int

section \<open>Arrays\<close>

text \<open>
  Reading a JavaScript array outside its length gives \<open>undefined\<close>, which is falsy;
  writing outside its length extends the array, leaving holes (again \<open>undefined\<close>).
\<close>

definition array_get :: "bool list \<Rightarrow> nat \<Rightarrow> bool" where
  "array_get xs i = (i < length xs \<and> xs ! i)"

definition array_set :: "bool list \<Rightarrow> nat \<Rightarrow> bool \<Rightarrow> bool list" where
  "array_set xs i v =
     (if i < length xs then xs[i := v]
      else xs @ replicate (i - length xs) False @ [v])"

definition byte_get :: "8 word list \<Rightarrow> nat \<Rightarrow> number option" where
  "byte_get xs i = (if i < length xs then Some (Fin (real (unat (xs ! i)))) else None)"

section \<open>Binarizer\<close>

text \<open>
  The value stored for the pixel whose first byte is at offset \<open>i\<close>: \<open>gray < threshold\<close>
  with \<open>gray = (r + g + b) / 3\<close>.  A byte read past the end of the buffer is \<open>undefined\<close>,
  the sum is then NaN and the comparison false.
\<close>

definition isDark :: "8 word list \<Rightarrow> nat \<Rightarrow> bool" where
  "isDark d i =
     (case (byte_get d i, byte_get d (i + 1), byte_get d (i + 2)) of
        (Some r, Some g, Some b) \<Rightarrow>
           num_lt (num_div (num_add (num_add r g) b) (Fin 3)) (Fin 128)
      | _ \<Rightarrow> False)"

text \<open>The loop \<open>for (i = 0; i < data.length; i += 4)\<close> runs for \<open>i = 4 * k\<close>.\<close>

definition createBinaryImage :: "8 word list \<Rightarrow> int \<Rightarrow> int \<Rightarrow> bool list" where
  "createBinaryImage d w h =
     fold (\<lambda>k binary. array_set binary k (isDark d (4 * k)))
       [0 ..< (length d + 3) div 4]
       (replicate (nat (w * h)) False)"

section \<open>Component extractor\<close>

text \<open>The eight neighbours, in the order of the iteration over \<open>dy\<close> (outer) and \<open>dx\<close> (inner).\<close>

definition neighbours8 :: "point \<Rightarrow> point list" where
  "neighbours8 p =
     [\<lparr>px = px p + dx, py = py p + dy\<rparr>.
        dy \<leftarrow> [-1, 0, 1], dx \<leftarrow> [-1, 0, 1], \<not> (dx = 0 \<and> dy = 0)]"

definition outOfBounds :: "int \<Rightarrow> int \<Rightarrow> point \<Rightarrow> bool" where
  "outOfBounds w h p = (px p < 0 \<or> px p \<ge> w \<or> py p < 0 \<or> py p \<ge> h)"

definition pixelIndex :: "int \<Rightarrow> point \<Rightarrow> nat" where
  "pixelIndex w p = nat (py p * w + px p)"

text \<open>A visited pixel is a boundary pixel if a neighbour is outside the image or light.\<close>

definition isBoundary :: "bool list \<Rightarrow> int \<Rightarrow> int \<Rightarrow> point \<Rightarrow> bool" where
  "isBoundary binary w h p =
     list_ex (\<lambda>n. if outOfBounds w h n then True else \<not> array_get binary (pixelIndex w n))
       (neighbours8 p)"

text \<open>The pixels of the image that are not marked in the visited mask.\<close>

definition unvisited :: "int \<Rightarrow> int \<Rightarrow> bool list \<Rightarrow> nat set" where
  "unvisited w h visited = {i. i < nat (w * h) \<and> \<not> array_get visited i}"

text \<open>
  The \<open>while (stack.length > 0)\<close> loop of \<open>floodFill\<close>.  The stack is a list whose head
  is the top; the state is the visited mask, \<open>allPoints\<close>, \<open>boundaryPoints\<close> and the stack.
  Every iteration either marks a pixel of the image that was not marked, or only shortens
  the stack.
\<close>

function floodFill_loop ::
  "bool list \<Rightarrow> int \<Rightarrow> int \<Rightarrow> bool list \<Rightarrow> point list \<Rightarrow> point list \<Rightarrow> point list
     \<Rightarrow> bool list \<times> point list \<times> point list" where
  "floodFill_loop binary w h visited allPoints boundaryPoints [] =
     (visited, allPoints, boundaryPoints)"
| "floodFill_loop binary w h visited allPoints boundaryPoints (p # stack) =
     (if outOfBounds w h p \<or> array_get visited (pixelIndex w p)
          \<or> \<not> array_get binary (pixelIndex w p)
      then floodFill_loop binary w h visited allPoints boundaryPoints stack
      else floodFill_loop binary w h
             (array_set visited (pixelIndex w p) True)
             (allPoints @ [p])
             (if isBoundary binary w h p then boundaryPoints @ [p] else boundaryPoints)
             (rev (neighbours8 p) @ stack))"
  by pat_completeness auto

lemma array_get_array_set: "array_get (array_set v i True) j = (j = i \<or> array_get v j)"
  by (auto simp: array_get_def array_set_def nth_append nth_list_update)

lemma pixelIndex_less:
  assumes "\<not> outOfBounds w h p"
  shows "pixelIndex w p < nat (w * h)"
proof -
  from assms have x: "0 \<le> px p" "px p < w" and y: "0 \<le> py p" "py p < h"
    by (auto simp: outOfBounds_def)
  have "py p * w + px p < (py p + 1) * w" using x by (simp add: algebra_simps)
  also have "\<dots> \<le> h * w" using y x by (intro mult_right_mono) auto
  finally have "py p * w + px p < w * h" by (simp add: mult.commute)
  moreover have "0 \<le> py p * w + px p" using x y by simp
  ultimately show ?thesis by (simp add: pixelIndex_def)
qed

lemma finite_unvisited: "finite (unvisited w h v)"
  by (simp add: unvisited_def)

lemma unvisited_array_set:
  "unvisited w h (array_set v i True) = unvisited w h v - {i}"
  by (auto simp: unvisited_def array_get_array_set)

lemma card_unvisited_array_set:
  assumes "\<not> outOfBounds w h p" "\<not> array_get v (pixelIndex w p)"
  shows "card (unvisited w h (array_set v (pixelIndex w p) True)) < card (unvisited w h v)"
proof -
  have "pixelIndex w p \<in> unvisited w h v"
    using assms pixelIndex_less by (simp add: unvisited_def)
  then show ?thesis
    unfolding unvisited_array_set by (intro card_Diff1_less finite_unvisited)
qed

termination floodFill_loop
  by (relation "measures [\<lambda>(binary, w, h, visited, allPoints, boundaryPoints, stack). card (unvisited w h visited),
                          \<lambda>(binary, w, h, visited, allPoints, boundaryPoints, stack). length stack]")
     (auto simp: card_unvisited_array_set)

section \<open>Boundary orderer\<close>

text \<open>
  The \<open>Set\<close> of keys \<open>`${p.x},${p.y}`\<close> is modelled as the list of the points themselves
  (the key of an integer point determines it and is parsed back to it), without duplicates
  and in insertion order, which is the iteration order of a JavaScript \<open>Set\<close>.
\<close>

definition set_add :: "point list \<Rightarrow> point \<Rightarrow> point list" where
  "set_add s p = (if p \<in> set s then s else s @ [p])"

definition new_Set :: "point list \<Rightarrow> point list" where
  "new_Set ps = foldl set_add [] ps"

definition set_delete :: "point list \<Rightarrow> point \<Rightarrow> point list" where
  "set_delete s p = removeAll p s"

text \<open>One iteration of the first \<open>for\<close> loop (Manhattan distance, at most 2).\<close>

definition nearbyStep :: "point \<Rightarrow> point \<Rightarrow> point option \<times> number \<Rightarrow> point option \<times> number" where
  "nearbyStep current p st =
     (let dist = \<bar>px p - px current\<bar> + \<bar>py p - py current\<bar> in
      if num_lt (of_int_num dist) (snd st) \<and> dist \<le> 2 then (Some p, of_int_num dist) else st)"

text \<open>One iteration of the fallback \<open>for\<close> loop (Euclidean distance).\<close>

definition closestStep :: "point \<Rightarrow> point \<Rightarrow> point option \<times> number \<Rightarrow> point option \<times> number" where
  "closestStep current p st =
     (let dist = math_sqrt (of_int_num ((px p - px current)\<^sup>2 + (py p - py current)\<^sup>2)) in
      if num_lt dist (snd st) then (Some p, dist) else st)"

text \<open>
  The choice made by one iteration of the \<open>while\<close> loop: the near point if there is one,
  otherwise the result of the fallback loop, which starts from the \<open>minDist\<close> left by the
  first loop.  \<open>None\<close> is the \<open>break\<close>.
\<close>

definition selectNearest :: "point \<Rightarrow> point list \<Rightarrow> point option" where
  "selectNearest current remaining =
     (let st = fold (nearbyStep current) remaining (None, PInf) in
      case fst st of
        Some nearest \<Rightarrow> Some nearest
      | None \<Rightarrow> fst (fold (closestStep current) remaining (None, snd st)))"

lemma nearbyStep_fold_mem:
  "fst (fold (nearbyStep c) rs st) = Some n \<Longrightarrow> n \<in> set rs \<or> fst st = Some n"
proof (induction rs arbitrary: st)
  case Nil
  then show ?case by simp
next
  case (Cons r rs)
  from Cons.prems have "fst (fold (nearbyStep c) rs (nearbyStep c r st)) = Some n" by simp
  from Cons.IH [OF this] show ?case
    by (auto simp: nearbyStep_def Let_def split: if_splits)
qed

lemma closestStep_fold_mem:
  "fst (fold (closestStep c) rs st) = Some n \<Longrightarrow> n \<in> set rs \<or> fst st = Some n"
proof (induction rs arbitrary: st)
  case Nil
  then show ?case by simp
next
  case (Cons r rs)
  from Cons.prems have "fst (fold (closestStep c) rs (closestStep c r st)) = Some n" by simp
  from Cons.IH [OF this] show ?case
    by (auto simp: closestStep_def Let_def split: if_splits)
qed

lemma selectNearest_mem: "selectNearest c rs = Some n \<Longrightarrow> n \<in> set rs"
  by (auto simp: selectNearest_def Let_def split: option.splits
      dest: nearbyStep_fold_mem closestStep_fold_mem)

lemma length_set_delete: "n \<in> set rs \<Longrightarrow> length (set_delete rs n) < length rs"
  by (simp add: set_delete_def length_removeAll_less)

function orderLoop :: "point list \<Rightarrow> point list \<Rightarrow> point \<Rightarrow> point list" where
  "orderLoop ordered remaining current =
     (if remaining = [] then ordered
      else case selectNearest current remaining of
             Some nearest \<Rightarrow> orderLoop (ordered @ [nearest]) (set_delete remaining nearest) nearest
           | None \<Rightarrow> ordered)"
  by pat_completeness auto
termination
  by (relation "measure (\<lambda>(ordered, remaining, current). length remaining)")
     (auto simp: length_set_delete selectNearest_mem)

text \<open>The \<open>while (remaining.size > 0)\<close> loop is \<open>orderLoop\<close>; this is the whole function.\<close>

definition orderBoundaryPoints :: "point list \<Rightarrow> point list \<Rightarrow> point list" where
  "orderBoundaryPoints boundaryPoints allPoints =
     (if length boundaryPoints = 0 then allPoints
      else let ordered = orderLoop [boundaryPoints ! 0] (new_Set (drop 1 boundaryPoints))
                           (boundaryPoints ! 0)
           in if length ordered > 0 then ordered else allPoints)"

text \<open>
  \<open>floodFill\<close>: the loop from the start pixel, then the choice of the contour.
  The visited mask is mutated in place by the source and therefore returned here.
\<close>

definition floodFill ::
  "bool list \<Rightarrow> bool list \<Rightarrow> int \<Rightarrow> int \<Rightarrow> int \<Rightarrow> int \<Rightarrow> bool list \<times> point list" where
  "floodFill binary visited startX startY w h =
     (case floodFill_loop binary w h visited [] [] [\<lparr>px = startX, py = startY\<rparr>] of
        (visited', allPoints, boundaryPoints) \<Rightarrow>
          (visited',
           if length boundaryPoints > 0 then orderBoundaryPoints boundaryPoints allPoints
           else allPoints))"

text \<open>The body of the two nested \<open>for\<close> statements of \<open>findContours\<close>, at pixel \<open>(x, y)\<close>.\<close>

definition scanPixel ::
  "bool list \<Rightarrow> int \<Rightarrow> int \<Rightarrow> int \<Rightarrow> int \<Rightarrow> bool list \<times> point list list
     \<Rightarrow> bool list \<times> point list list" where
  "scanPixel binary w h y x st =
     (case st of (visited, contours) \<Rightarrow>
        let index = nat (y * w + x) in
        if array_get binary index \<and> \<not> array_get visited index
        then (case floodFill binary visited x y w h of
                (visited', contour) \<Rightarrow>
                  (visited', if length contour > 10 then contours @ [contour] else contours))
        else (visited, contours))"

definition findContours :: "bool list \<Rightarrow> int \<Rightarrow> int \<Rightarrow> point list list" where
  "findContours binary w h =
     snd (fold (\<lambda>y. fold (scanPixel binary w h y) [0 .. w - 1]) [0 .. h - 1]
            (replicate (nat (w * h)) False, []))"

section \<open>Polygon simplifier\<close>

text \<open>
  The distance is computed here in exact real arithmetic, where the source rounds every
  operation to a double.  The two can differ in the last bits: for the point \<open>(5, 10)\<close> and
  the chord from \<open>(0, 0)\<close> to \<open>(9, 12)\<close> the exact distance is 2, and the double computation
  yields 2.0000000000000004.  A finite number of this model stands for the double that
  approximates it: that a value is finite carries over to the source, an exact value only
  up to rounding.
\<close>

definition pointToLineDistance :: "point \<Rightarrow> point \<Rightarrow> point \<Rightarrow> number" where
  "pointToLineDistance point lineStart lineEnd =
     (let A = px point - px lineStart;
          B = py point - py lineStart;
          C = px lineEnd - px lineStart;
          D = py lineEnd - py lineStart;
          dot = A * C + B * D;
          lenSq = C * C + D * D;
          param = (if lenSq \<noteq> 0 then num_div (of_int_num dot) (of_int_num lenSq) else Fin (- 1));
          xx = (if num_lt param (Fin 0) then of_int_num (px lineStart)
                else if num_gt param (Fin 1) then of_int_num (px lineEnd)
                else num_add (of_int_num (px lineStart)) (num_mul param (of_int_num C)));
          yy = (if num_lt param (Fin 0) then of_int_num (py lineStart)
                else if num_gt param (Fin 1) then of_int_num (py lineEnd)
                else num_add (of_int_num (py lineStart)) (num_mul param (of_int_num D)));
          dx = num_sub (of_int_num (px point)) xx;
          dy = num_sub (of_int_num (py point)) yy
      in math_sqrt (num_add (num_mul dx dx) (num_mul dy dy)))"

text \<open>
  One iteration of the search for the farthest point; the state is \<open>(maxDist, maxIndex)\<close>.
\<close>

definition farthestStep :: "point list \<Rightarrow> nat \<Rightarrow> number \<times> nat \<Rightarrow> number \<times> nat" where
  "farthestStep contour i st =
     (let dist = pointToLineDistance (contour ! i) (contour ! 0) (contour ! (length contour - 1))
      in if num_gt dist (fst st) then (dist, i) else st)"

definition farthest :: "point list \<Rightarrow> number \<times> nat" where
  "farthest contour = fold (farthestStep contour) [1 ..< length contour - 1] (Fin 0, 0)"

text \<open>
  The comparisons \<open>dist > maxDist\<close> and \<open>maxDist > epsilon\<close> are made on the exact distances.
  Where two distances, or a distance and the tolerance, are equal or differ by less than the
  rounding error of the double computation, the source may choose another farthest point
  or decide the other way, and then keeps other vertices than this function.  The
  properties proved of the result below hold for every choice: it is a subsequence of the
  contour with the same first and last point, and the recursion returns because both parts
  are shorter than the whole.
\<close>

partial_function (option) simplifyContour :: "point list \<Rightarrow> number \<Rightarrow> point list option" where
  "simplifyContour contour epsilon =
     (if length contour \<le> 2 then Some contour
      else if num_gt (fst (farthest contour)) epsilon
      then Option.bind (simplifyContour (take (snd (farthest contour) + 1) contour) epsilon)
             (\<lambda>left. Option.bind (simplifyContour (drop (snd (farthest contour)) contour) epsilon)
                (\<lambda>right. Some (butlast left @ right)))
      else Some [contour ! 0, contour ! (length contour - 1)])"

section \<open>Shape classifier\<close>

record bounds =
  minX :: number
  minY :: number
  bounds_width :: number
  bounds_height :: number

definition boundsStep :: "point \<Rightarrow> number \<times> number \<times> number \<times> number
    \<Rightarrow> number \<times> number \<times> number \<times> number" where
  "boundsStep p st =
     (case st of (mnX, mnY, mxX, mxY) \<Rightarrow>
        (math_min mnX (of_int_num (px p)), math_min mnY (of_int_num (py p)),
         math_max mxX (of_int_num (px p)), math_max mxY (of_int_num (py p))))"

definition calculateBounds :: "point list \<Rightarrow> bounds" where
  "calculateBounds points =
     (case fold boundsStep points (PInf, PInf, NInf, NInf) of
        (mnX, mnY, mxX, mxY) \<Rightarrow>
          \<lparr>minX = mnX, minY = mnY,
           bounds_width = num_add (num_sub mxX mnX) (Fin 1),
           bounds_height = num_add (num_sub mxY mnY) (Fin 1)\<rparr>)"

text \<open>The shoelace sum; the coordinates are integers, so the accumulator is one too.\<close>

definition shoelace :: "point list \<Rightarrow> int" where
  "shoelace points =
     fold (\<lambda>i acc. let j = (i + 1) mod length points in
                      acc + px (points ! i) * py (points ! j) - px (points ! j) * py (points ! i))
       [0 ..< length points] 0"

definition calculateArea :: "point list \<Rightarrow> number" where
  "calculateArea points = num_div (math_abs (of_int_num (shoelace points))) (Fin 2)"

definition edgeLength :: "point list \<Rightarrow> nat \<Rightarrow> number" where
  "edgeLength points i =
     (let next = points ! ((i + 1) mod length points);
          dx = px next - px (points ! i);
          dy = py next - py (points ! i)
      in math_sqrt (of_int_num (dx * dx + dy * dy)))"

definition calculatePerimeter :: "point list \<Rightarrow> number" where
  "calculatePerimeter points =
     fold (\<lambda>i perimeter. num_add perimeter (edgeLength points i)) [0 ..< length points] (Fin 0)"

definition calculateEdgeLengths :: "point list \<Rightarrow> number list" where
  "calculateEdgeLengths points = map (edgeLength points) [0 ..< length points]"

text \<open>The angle at vertex \<open>i\<close>; \<open>cosAngle\<close> is the argument that the clamp receives.\<close>

definition magnitudes :: "point list \<Rightarrow> nat \<Rightarrow> number" where
  "magnitudes points i =
     (let n = length points;
          prev = points ! ((i + n - 1) mod n);
          curr = points ! i;
          next = points ! ((i + 1) mod n);
          v1x = px prev - px curr; v1y = py prev - py curr;
          v2x = px next - px curr; v2y = py next - py curr;
          mag1 = math_sqrt (of_int_num (v1x * v1x + v1y * v1y));
          mag2 = math_sqrt (of_int_num (v2x * v2x + v2y * v2y))
      in num_mul mag1 mag2)"

definition cosAngle :: "point list \<Rightarrow> nat \<Rightarrow> number" where
  "cosAngle points i =
     (let n = length points;
          prev = points ! ((i + n - 1) mod n);
          curr = points ! i;
          next = points ! ((i + 1) mod n);
          v1x = px prev - px curr; v1y = py prev - py curr;
          v2x = px next - px curr; v2y = py next - py curr;
          dot = v1x * v2x + v1y * v2y
      in num_div (of_int_num dot) (magnitudes points i))"

definition clampedCos :: "point list \<Rightarrow> nat \<Rightarrow> number" where
  "clampedCos points i = math_max (Fin (- 1)) (math_min (Fin 1) (cosAngle points i))"

definition calculateAngles :: "point list \<Rightarrow> number list" where
  "calculateAngles points =
     map (\<lambda>i. num_mul (math_acos (clampedCos points i)) (num_div (Fin 180) (Fin pi)))
       [0 ..< length points]"

definition isTriangle :: "point list \<Rightarrow> bool" where
  "isTriangle points =
     (if length points \<noteq> 3 then False
      else let angles = calculateAngles points;
               minAngle = math_min_list angles;
               maxAngle = math_max_list angles
           in num_gt minAngle (Fin 20) \<and> num_lt maxAngle (Fin 160))"

definition isRectangle :: "point list \<Rightarrow> bool" where
  "isRectangle points =
     (if length points < 4 then False
      else let angles = calculateAngles points;
               rightAngles = length (filter (\<lambda>angle. num_lt (math_abs (num_sub angle (Fin 90))) (Fin 30)) angles)
           in rightAngles \<ge> 2)"

definition isPentagon :: "point list \<Rightarrow> bool" where
  "isPentagon points =
     (if length points < 5 then False
      else let edgeLengths = calculateEdgeLengths points;
               count = Fin (real (length edgeLengths));
               avgLength = num_div (foldl num_add (Fin 0) edgeLengths) count;
               variance = num_div
                 (foldl (\<lambda>sum len. num_add sum (num_mul (num_sub len avgLength) (num_sub len avgLength)))
                    (Fin 0) edgeLengths) count;
               stdDev = math_sqrt variance
           in num_lt (num_div stdDev avgLength) (Fin 0.3))"

definition isStar :: "point list \<Rightarrow> bool" where
  "isStar points =
     (if length points < 8 then False
      else let angles = calculateAngles points;
               alternating = length (filter
                  (\<lambda>i. num_gt (math_abs (num_sub (angles ! i) (angles ! (i + 1)))) (Fin 30))
                  [0 ..< length angles - 1])
           in num_ge (Fin (real alternating)) (num_div (Fin (real (length points))) (Fin 2)))"

text \<open>The decision tree: the label and the confidence before the final clamp.\<close>

definition classify :: "point list \<Rightarrow> number \<Rightarrow> (shape_type \<times> number) option" where
  "classify simplified circularity =
     (let numVertices = length simplified in
      if num_gt circularity (Fin 0.85) \<and> numVertices \<ge> 8
      then Some (Circle, math_min (Fin 0.95) (num_add (Fin 0.7) (num_mul circularity (Fin 0.25))))
      else if numVertices = 3 \<or> (numVertices \<ge> 3 \<and> numVertices \<le> 5 \<and> isTriangle simplified)
      then Some (Triangle, num_add (Fin 0.85) (if numVertices = 3 then Fin 0.1 else Fin (- 0.1)))
      else if numVertices = 4 \<or> (numVertices \<ge> 4 \<and> numVertices \<le> 6 \<and> isRectangle simplified)
      then Some (Rectangle, num_add (Fin 0.9) (if numVertices = 4 then Fin 0.08 else Fin (- 0.1)))
      else if numVertices = 5 \<or> (numVertices \<ge> 5 \<and> numVertices \<le> 7 \<and> isPentagon simplified)
      then Some (Pentagon, num_add (Fin 0.85) (if numVertices = 5 then Fin 0.1 else Fin (- 0.1)))
      else if numVertices \<ge> 8 \<and> numVertices \<le> 12 \<and> isStar simplified
      then Some (Star, Fin 0.8)
      else if numVertices \<ge> 6 \<and> numVertices \<le> 8
      then Some (Pentagon, Fin 0.75)
      else None)"

definition classifyShape :: "point list \<Rightarrow> point list \<Rightarrow> detected_shape option" where
  "classifyShape simplified originalContour =
     (let bnds = calculateBounds originalContour;
          ctr = \<lparr>cx = num_add (minX bnds) (num_div (bounds_width bnds) (Fin 2)),
                 cy = num_add (minY bnds) (num_div (bounds_height bnds) (Fin 2))\<rparr>;
          ar = calculateArea originalContour;
          perimeter = calculatePerimeter simplified;
          circularity = num_div (num_mul (num_mul (Fin 4) (Fin pi)) ar) (num_mul perimeter perimeter)
      in case classify simplified circularity of
           None \<Rightarrow> None
         | Some (ty, conf) \<Rightarrow>
             Some \<lparr>shapeType = ty,
                   confidence = math_min (Fin 1) conf,
                   boundingBox = \<lparr>box_x = minX bnds, box_y = minY bnds,
                                   box_width = bounds_width bnds, box_height = bounds_height bnds\<rparr>,
                   center = ctr,
                   area = ar\<rparr>)"

section \<open>The pipeline\<close>

text \<open>
  The loop over the contours.  \<open>None\<close> means that a call of \<open>simplifyContour\<close> does not
  return.
\<close>

fun detectLoop :: "point list list \<Rightarrow> detected_shape list \<Rightarrow> detected_shape list option" where
  "detectLoop [] shps = Some shps"
| "detectLoop (contour # rest) shps =
     (if length contour < 3 then detectLoop rest shps
      else case simplifyContour contour (Fin 2) of
             None \<Rightarrow> None
           | Some simplified \<Rightarrow>
               if length simplified < 3 then detectLoop rest shps
               else (case classifyShape simplified contour of
                       Some shapeInfo \<Rightarrow> detectLoop rest (shps @ [shapeInfo])
                     | None \<Rightarrow> detectLoop rest shps))"

text \<open>
  \<open>detectShapes\<close>; the two readings of \<open>performance.now()\<close> are parameters.
\<close>

definition detectShapes :: "real \<Rightarrow> real \<Rightarrow> image_data \<Rightarrow> detection_result option" where
  "detectShapes startTime endTime imageData =
     (let binary = createBinaryImage (img_data imageData) (img_width imageData) (img_height imageData);
          contours = findContours binary (img_width imageData) (img_height imageData)
      in map_option
           (\<lambda>shps. \<lparr>shapes = shps, processingTime = endTime - startTime,
                     imageWidth = img_width imageData, imageHeight = img_height imageData\<rparr>)
           (detectLoop contours []))"

section \<open>The pipeline on a heap\<close>

text \<open>
  To state what a call does to the caller's buffer, the arrays that the source writes by
  index are placed on a heap: the pixel buffer (a \<open>Uint8ClampedArray\<close>), \<open>binary\<close> and
  \<open>visited\<close> (plain arrays of booleans).  A reference is an index into the heap;
  \<open>new Array\<close> allocates at the end.  Arrays that are built by \<open>push\<close> only and never
  shared (\<open>stack\<close>, \<open>allPoints\<close>, \<open>contours\<close>, ...) stay values.
\<close>

type_synonym ref = nat

datatype js_object = Uint8ClampedArray "8 word list" | BoolArray "bool list"

type_synonym heap = "js_object list"

definition heap_alloc :: "heap \<Rightarrow> js_object \<Rightarrow> ref \<times> heap" where
  "heap_alloc hp obj = (length hp, hp @ [obj])"

text \<open>The elements of the object at \<open>r\<close>, read as truth values and as bytes.\<close>

definition heap_bools :: "heap \<Rightarrow> ref \<Rightarrow> bool list" where
  "heap_bools hp r =
     (if r < length hp
      then case hp ! r of BoolArray xs \<Rightarrow> xs | Uint8ClampedArray d \<Rightarrow> map (\<lambda>b. b \<noteq> 0) d
      else [])"

definition heap_bytes :: "heap \<Rightarrow> ref \<Rightarrow> 8 word list" where
  "heap_bytes hp r =
     (if r < length hp
      then case hp ! r of Uint8ClampedArray d \<Rightarrow> d | BoolArray xs \<Rightarrow> map (\<lambda>b. if b then 1 else 0) xs
      else [])"

text \<open>
  \<open>a[i] = v\<close> for a truth value \<open>v\<close>: a plain array is extended if necessary, a typed array
  stores 0 or 1 within its fixed length.
\<close>

definition heap_store :: "heap \<Rightarrow> ref \<Rightarrow> nat \<Rightarrow> bool \<Rightarrow> heap" where
  "heap_store hp r i v =
     (if r < length hp
      then case hp ! r of
             BoolArray xs \<Rightarrow> hp[r := BoolArray (array_set xs i v)]
           | Uint8ClampedArray d \<Rightarrow>
               hp[r := Uint8ClampedArray (if i < length d then d[i := (if v then 1 else 0)] else d)]
      else hp)"

definition createBinaryImage_heap :: "heap \<Rightarrow> ref \<Rightarrow> int \<Rightarrow> int \<Rightarrow> ref \<times> heap" where
  "createBinaryImage_heap hp d w h =
     (case heap_alloc hp (BoolArray (replicate (nat (w * h)) False)) of
        (binary, hp1) \<Rightarrow>
          (binary,
           fold (\<lambda>k hp'. heap_store hp' binary k (isDark (heap_bytes hp' d) (4 * k)))
             [0 ..< (length (heap_bytes hp d) + 3) div 4] hp1))"

partial_function (option) floodFill_loop_heap ::
  "heap \<Rightarrow> ref \<Rightarrow> ref \<Rightarrow> int \<Rightarrow> int \<Rightarrow> point list \<Rightarrow> point list \<Rightarrow> point list
     \<Rightarrow> (heap \<times> point list \<times> point list) option" where
  "floodFill_loop_heap hp binary visited w h allPoints boundaryPoints stack =
     (case stack of
        [] \<Rightarrow> Some (hp, allPoints, boundaryPoints)
      | p # rest \<Rightarrow>
          if outOfBounds w h p \<or> array_get (heap_bools hp visited) (pixelIndex w p)
               \<or> \<not> array_get (heap_bools hp binary) (pixelIndex w p)
          then floodFill_loop_heap hp binary visited w h allPoints boundaryPoints rest
          else floodFill_loop_heap (heap_store hp visited (pixelIndex w p) True) binary visited w h
                 (allPoints @ [p])
                 (if isBoundary (heap_bools (heap_store hp visited (pixelIndex w p) True) binary) w h p
                  then boundaryPoints @ [p] else boundaryPoints)
                 (rev (neighbours8 p) @ rest))"

definition floodFill_heap ::
  "heap \<Rightarrow> ref \<Rightarrow> ref \<Rightarrow> int \<Rightarrow> int \<Rightarrow> int \<Rightarrow> int \<Rightarrow> (heap \<times> point list) option" where
  "floodFill_heap hp binary visited startX startY w h =
     (case floodFill_loop_heap hp binary visited w h [] [] [\<lparr>px = startX, py = startY\<rparr>] of
        None \<Rightarrow> None
      | Some (hp', allPoints, boundaryPoints) \<Rightarrow>
          Some (hp',
                if length boundaryPoints > 0 then orderBoundaryPoints boundaryPoints allPoints
                else allPoints))"

definition scanPixel_heap ::
  "ref \<Rightarrow> ref \<Rightarrow> int \<Rightarrow> int \<Rightarrow> int \<Rightarrow> int \<Rightarrow> heap \<times> point list list
     \<Rightarrow> (heap \<times> point list list) option" where
  "scanPixel_heap binary visited w h y x st =
     (case st of (hp, contours) \<Rightarrow>
        let index = nat (y * w + x) in
        if array_get (heap_bools hp binary) index \<and> \<not> array_get (heap_bools hp visited) index
        then (case floodFill_heap hp binary visited x y w h of
                None \<Rightarrow> None
              | Some (hp', contour) \<Rightarrow>
                  Some (hp', if length contour > 10 then contours @ [contour] else contours))
        else Some (hp, contours))"

definition findContours_heap :: "heap \<Rightarrow> ref \<Rightarrow> int \<Rightarrow> int \<Rightarrow> (heap \<times> point list list) option" where
  "findContours_heap hp binary w h =
     (case heap_alloc hp (BoolArray (replicate (nat (w * h)) False)) of
        (visited, hp1) \<Rightarrow>
          fold (\<lambda>y. fold (\<lambda>x st. Option.bind st (scanPixel_heap binary visited w h y x)) [0 .. w - 1])
            [0 .. h - 1] (Some (hp1, [])))"

text \<open>
  \<open>detectShapes\<close> for an \<open>ImageData\<close> whose buffer is the object at \<open>d\<close>; the heap after the
  call is returned with the result.  \<open>None\<close> means that the call does not return.
\<close>

definition detectShapes_heap ::
  "real \<Rightarrow> real \<Rightarrow> heap \<Rightarrow> ref \<Rightarrow> int \<Rightarrow> int \<Rightarrow> (detection_result \<times> heap) option" where
  "detectShapes_heap startTime endTime hp d w h =
     (case createBinaryImage_heap hp d w h of
        (binary, hp1) \<Rightarrow>
          (case findContours_heap hp1 binary w h of
             None \<Rightarrow> None
           | Some (hp2, contours) \<Rightarrow>
               map_option
                 (\<lambda>shps. (\<lparr>shapes = shps, processingTime = endTime - startTime,
                            imageWidth = w, imageHeight = h\<rparr>, hp2))
                 (detectLoop contours [])))"

section \<open>Properties of the boundary orderer\<close>

lemma foldl_set_add_distinct:
  "distinct (acc @ ps) \<Longrightarrow> foldl set_add acc ps = acc @ ps"
  by (induction ps arbitrary: acc) (auto simp: set_add_def)

lemma new_Set_distinct: "distinct ps \<Longrightarrow> new_Set ps = ps"
  using foldl_set_add_distinct [of "[]" ps] by (simp add: new_Set_def)

lemma nearbyStep_cases:
  "nearbyStep c r st = st \<or> fst (nearbyStep c r st) = Some r"
  by (simp add: nearbyStep_def Let_def)

lemma nearbyStep_fold_Some:
  "fst st = Some q \<Longrightarrow> \<exists>q'. fst (fold (nearbyStep c) rs st) = Some q'"
proof (induction rs arbitrary: st q)
  case Nil
  then show ?case by simp
next
  case (Cons r rs)
  from nearbyStep_cases [of c r st] Cons.prems
  obtain q'' where "fst (nearbyStep c r st) = Some q''" by auto
  from Cons.IH [OF this] show ?case by simp
qed

lemma nearbyStep_fold_None:
  "fst (fold (nearbyStep c) rs st) = None \<Longrightarrow> fold (nearbyStep c) rs st = st"
proof (induction rs arbitrary: st)
  case Nil
  then show ?case by simp
next
  case (Cons r rs)
  from nearbyStep_cases [of c r st] show ?case
  proof
    assume eq: "nearbyStep c r st = st"
    with Cons.prems have "fst (fold (nearbyStep c) rs st) = None" by simp
    from Cons.IH [OF this] eq show ?thesis by simp
  next
    assume "fst (nearbyStep c r st) = Some r"
    from nearbyStep_fold_Some [OF this, of c rs] Cons.prems show ?thesis by simp
  qed
qed

lemma closestStep_cases:
  "closestStep c r st = st \<or> fst (closestStep c r st) = Some r"
  by (simp add: closestStep_def Let_def)

lemma closestStep_fold_Some:
  "fst st = Some q \<Longrightarrow> \<exists>q'. fst (fold (closestStep c) rs st) = Some q'"
proof (induction rs arbitrary: st q)
  case Nil
  then show ?case by simp
next
  case (Cons r rs)
  from closestStep_cases [of c r st] Cons.prems
  obtain q'' where "fst (closestStep c r st) = Some q''" by auto
  from Cons.IH [OF this] show ?case by simp
qed

lemma closestStep_fold_PInf:
  assumes "rs \<noteq> []"
  shows "fst (fold (closestStep c) rs (None, PInf)) \<noteq> None"
proof -
  obtain r rs' where rs: "rs = r # rs'" using assms by (cases rs) auto
  have "0 \<le> (real_of_int (px r) - real_of_int (px c))\<^sup>2 + (real_of_int (py r) - real_of_int (py c))\<^sup>2"
    by simp
  then have "fst (closestStep c r (None, PInf)) = Some r"
    by (simp add: closestStep_def Let_def not_less [symmetric] del: not_less)
  from closestStep_fold_Some [OF this, of c rs'] show ?thesis
    unfolding rs by auto
qed

lemma selectNearest_Some:
  assumes "remaining \<noteq> []"
  shows "\<exists>n. selectNearest current remaining = Some n \<and> n \<in> set remaining"
proof (cases "fst (fold (nearbyStep current) remaining (None, PInf))")
  case (Some n)
  then have "selectNearest current remaining = Some n"
    by (simp add: selectNearest_def Let_def)
  then show ?thesis using selectNearest_mem by blast
next
  case None
  then have "snd (fold (nearbyStep current) remaining (None, PInf)) = PInf"
    by (simp add: nearbyStep_fold_None)
  with None have "selectNearest current remaining = fst (fold (closestStep current) remaining (None, PInf))"
    by (simp add: selectNearest_def Let_def)
  with closestStep_fold_PInf [OF assms, of current]
  obtain n where "selectNearest current remaining = Some n" by (cases "selectNearest current remaining") auto
  then show ?thesis using selectNearest_mem by blast
qed

declare orderLoop.simps [simp del]

lemma orderLoop_Nil: "orderLoop ordered [] current = ordered"
  by (subst orderLoop.simps) simp

lemma orderLoop_Some:
  "remaining \<noteq> [] \<Longrightarrow> selectNearest current remaining = Some n \<Longrightarrow>
     orderLoop ordered remaining current = orderLoop (ordered @ [n]) (set_delete remaining n) n"
  by (subst orderLoop.simps) simp

lemma orderLoop_None:
  "selectNearest current remaining = None \<Longrightarrow> orderLoop ordered remaining current = ordered"
  by (subst orderLoop.simps) simp

lemma mset_orderLoop:
  "distinct remaining \<Longrightarrow> mset (orderLoop ordered remaining current) = mset ordered + mset remaining"
proof (induction ordered remaining current rule: orderLoop.induct)
  case (1 ordered remaining current)
  show ?case
  proof (cases "remaining = []")
    case True
    then show ?thesis by (simp add: orderLoop_Nil)
  next
    case False
    from selectNearest_Some [OF False, of current]
    obtain n where n: "selectNearest current remaining = Some n" "n \<in> set remaining" by blast
    have d: "distinct (set_delete remaining n)"
      using "1.prems" by (simp add: set_delete_def distinct_removeAll)
    have m: "mset (set_delete remaining n) + {#n#} = mset remaining"
      using "1.prems" n(2) by (simp add: set_delete_def distinct_remove1_removeAll [symmetric])
    have "mset (orderLoop ordered remaining current)
            = mset (orderLoop (ordered @ [n]) (set_delete remaining n) n)"
      using False n(1) by (simp add: orderLoop_Some)
    also have "\<dots> = mset (ordered @ [n]) + mset (set_delete remaining n)"
      using "1.IH" [OF False n(1) d] .
    also have "\<dots> = mset ordered + mset remaining"
      using m by (simp add: add.commute add.left_commute)
    finally show ?thesis .
  qed
qed

lemma orderLoop_prefix: "\<exists>zs. orderLoop ordered remaining current = ordered @ zs"
proof (induction ordered remaining current rule: orderLoop.induct)
  case (1 ordered remaining current)
  show ?case
  proof (cases "remaining = []")
    case True
    then show ?thesis by (simp add: orderLoop_Nil)
  next
    case False
    show ?thesis
    proof (cases "selectNearest current remaining")
      case None
      then show ?thesis by (simp add: orderLoop_None)
    next
      case (Some n)
      from "1.IH" [OF False Some] obtain zs where
        "orderLoop (ordered @ [n]) (set_delete remaining n) n = (ordered @ [n]) @ zs" by blast
      with False Some show ?thesis by (simp add: orderLoop_Some)
    qed
  qed
qed

lemma mset_orderBoundaryPoints:
  assumes "boundaryPoints \<noteq> []" "distinct boundaryPoints"
  shows "mset (orderBoundaryPoints boundaryPoints allPoints) = mset boundaryPoints"
proof -
  obtain b bs where bp: "boundaryPoints = b # bs" using assms(1) by (cases boundaryPoints) auto
  have d: "distinct bs" using assms(2) bp by simp
  have m: "mset (orderLoop [b] bs b) = mset [b] + mset bs"
    using d by (rule mset_orderLoop)
  then have "orderLoop [b] bs b \<noteq> []" by auto
  then show ?thesis
    using m d by (simp add: orderBoundaryPoints_def bp new_Set_distinct Let_def)
qed

section \<open>Properties of the polygon simplifier\<close>

lemma farthestStep_cases:
  "farthestStep contour i st = st \<or> (snd (farthestStep contour i st) = i \<and> num_gt (fst (farthestStep contour i st)) (fst st))"
  by (simp add: farthestStep_def Let_def)

lemma farthest_fold_index:
  assumes "\<forall>i \<in> set is. 1 \<le> i \<and> i < m"
    and "st = (Fin 0, 0) \<or> (1 \<le> snd st \<and> snd st < m \<and> num_gt (fst st) (Fin 0))"
  shows "fold (farthestStep contour) is st = (Fin 0, 0)
       \<or> (1 \<le> snd (fold (farthestStep contour) is st) \<and> snd (fold (farthestStep contour) is st) < m
           \<and> num_gt (fst (fold (farthestStep contour) is st)) (Fin 0))"
  using assms
proof (induction "is" arbitrary: st)
  case Nil
  then show ?case by simp
next
  case (Cons i "is")
  have i: "1 \<le> i" "i < m" using Cons.prems(1) by auto
  have "farthestStep contour i st = (Fin 0, 0)
       \<or> (1 \<le> snd (farthestStep contour i st) \<and> snd (farthestStep contour i st) < m
            \<and> num_gt (fst (farthestStep contour i st)) (Fin 0))"
  proof (cases "farthestStep contour i st = st")
    case True
    then show ?thesis using Cons.prems(2) by simp
  next
    case False
    with farthestStep_cases [of contour i st]
    have s: "snd (farthestStep contour i st) = i" "num_gt (fst (farthestStep contour i st)) (fst st)"
      by auto
    have "num_gt (fst (farthestStep contour i st)) (Fin 0)"
    proof (cases "st = (Fin 0, 0)")
      case True
      with s(2) show ?thesis by simp
    next
      case False
      with Cons.prems(2) have "num_gt (fst st) (Fin 0)" by simp
      with s(2) show ?thesis
        by (cases "fst st"; cases "fst (farthestStep contour i st)") (auto simp: num_gt_def)
    qed
    with s(1) i show ?thesis by simp
  qed
  moreover have "\<forall>i \<in> set is. 1 \<le> i \<and> i < m" using Cons.prems(1) by simp
  ultimately show ?case using Cons.IH by simp
qed

lemma farthest_index:
  assumes "num_gt (fst (farthest contour)) (Fin e)" "0 \<le> e"
  shows "1 \<le> snd (farthest contour) \<and> snd (farthest contour) < length contour - 1"
proof -
  have "farthest contour = (Fin 0, 0)
      \<or> (1 \<le> snd (farthest contour) \<and> snd (farthest contour) < length contour - 1
          \<and> num_gt (fst (farthest contour)) (Fin 0))"
    unfolding farthest_def by (rule farthest_fold_index) auto
  moreover have "farthest contour \<noteq> (Fin 0, 0)"
    using assms by (auto simp: num_gt_def)
  ultimately show ?thesis by blast
qed

lemma subseq_ends:
  assumes "3 \<le> length xs"
  shows "subseq [xs ! 0, xs ! (length xs - 1)] xs"
proof -
  obtain a ys where xs: "xs = a # ys" using assms by (cases xs) auto
  then have ys: "ys \<noteq> []" using assms by auto
  have "last ys \<in> set ys" using ys by simp
  then have "subseq [last ys] ys" by (simp add: subseq_singleton_left)
  then have "subseq [a, last ys] (a # ys)" by simp
  moreover have "xs ! (length xs - 1) = last ys"
    using ys xs by (simp add: last_conv_nth)
  ultimately show ?thesis using xs by simp
qed

lemma subseq_butlast_same_last:
  assumes "subseq l xs" "l \<noteq> []" "xs \<noteq> []" "last l = last xs"
  shows "subseq (butlast l) (butlast xs)"
proof -
  have "butlast l @ [last l] = l"
    using assms(2) by simp
  moreover have "butlast xs @ [last l] = xs"
    using assms(3) unfolding assms(4) by simp
  ultimately have "subseq (butlast l @ [last l]) (butlast xs @ [last l])"
    using assms(1) by simp
  then show ?thesis by (simp only: subseq_append)
qed

definition simplified_ok :: "point list \<Rightarrow> point list \<Rightarrow> bool" where
  "simplified_ok contour r =
     (if length contour \<le> 2 then r = contour
      else subseq r contour \<and> 2 \<le> length r \<and> hd r = hd contour \<and> last r = last contour)"

lemma simplifyContour_returns:
  assumes e: "0 \<le> e"
  shows "\<exists>r. simplifyContour contour (Fin e) = Some r \<and> simplified_ok contour r"
proof (induction contour rule: length_induct)
  case (1 contour)
  let ?n = "length contour"
  show ?case
  proof (cases "?n \<le> 2")
    case True
    then show ?thesis
      by (subst simplifyContour.simps) (simp add: simplified_ok_def)
  next
    case long: False
    show ?thesis
    proof (cases "num_gt (fst (farthest contour)) (Fin e)")
      case False
      then have "simplifyContour contour (Fin e) = Some [contour ! 0, contour ! (?n - 1)]"
        using long by (subst simplifyContour.simps) simp
      moreover have "subseq [contour ! 0, contour ! (?n - 1)] contour"
        using long by (intro subseq_ends) simp
      moreover have "contour \<noteq> []" using long by auto
      then have "contour ! 0 = hd contour" "contour ! (?n - 1) = last contour"
        by (simp_all add: hd_conv_nth last_conv_nth)
      ultimately show ?thesis using long by (simp add: simplified_ok_def)
    next
      case True
      define m where "m = snd (farthest contour)"
      from farthest_index [OF True e] have m: "1 \<le> m" "m < ?n - 1" by (simp_all add: m_def)
      let ?L = "take (m + 1) contour" and ?R = "drop m contour"
      have lenL: "length ?L = m + 1" and lenR: "length ?R = ?n - m" using m by auto
      have "length ?L < ?n" "length ?R < ?n" using m by auto
      with "1.IH" obtain l r where
        l: "simplifyContour ?L (Fin e) = Some l" "simplified_ok ?L l" and
        r: "simplifyContour ?R (Fin e) = Some r" "simplified_ok ?R r"
        by blast
      have Lne: "?L \<noteq> []" and Rne: "?R \<noteq> []" using m by auto
      have lastL: "last ?L = contour ! m"
        using m by (simp add: take_Suc_conv_app_nth)
      have hdR: "hd ?R = contour ! m" using m by (simp add: hd_drop_conv_nth)
      have hdL: "hd ?L = hd contour" using m by simp
      have lastR: "last ?R = last contour" using m by simp
      have l_props: "subseq l ?L \<and> 2 \<le> length l \<and> hd l = hd contour \<and> last l = last ?L"
      proof (cases "m + 1 \<le> 2")
        case True
        with l(2) lenL have "l = ?L" by (simp add: simplified_ok_def)
        then show ?thesis using m lenL hdL by simp
      next
        case False
        with l(2) lenL hdL show ?thesis by (simp add: simplified_ok_def)
      qed
      have r_props: "subseq r ?R \<and> 2 \<le> length r \<and> hd r = hd ?R \<and> last r = last contour"
      proof (cases "?n - m \<le> 2")
        case True
        with r(2) lenR have "r = ?R" by (simp add: simplified_ok_def)
        then show ?thesis using m lenR lastR by simp
      next
        case False
        with r(2) lenR lastR show ?thesis by (simp add: simplified_ok_def)
      qed
      have lne: "l \<noteq> []" and rne: "r \<noteq> []" using l_props r_props by auto
      have "subseq (butlast l) (butlast ?L)"
        using l_props lne Lne by (intro subseq_butlast_same_last) auto
      moreover have "butlast ?L = take m contour"
        using m by (simp add: butlast_take)
      ultimately have "subseq (butlast l @ r) (take m contour @ ?R)"
        using r_props by (intro list_emb_append_mono) auto
      then have sub: "subseq (butlast l @ r) contour" by simp
      have bl: "butlast l \<noteq> []" using l_props by (cases l rule: rev_cases) auto
      have hd: "hd (butlast l @ r) = hd contour"
        using bl l_props lne by (cases l) (auto split: if_splits)
      have last: "last (butlast l @ r) = last contour" using rne r_props by simp
      have len: "2 \<le> length (butlast l @ r)" using r_props by simp
      have "simplifyContour contour (Fin e) = Some (butlast l @ r)"
        using long True l(1) r(1) by (subst simplifyContour.simps) (simp add: m_def [symmetric])
      then show ?thesis using long sub hd last len by (simp add: simplified_ok_def)
    qed
  qed
qed

section \<open>Properties of the classifier\<close>

lemma isTriangle_length: "isTriangle points \<Longrightarrow> length points = 3"
  by (simp add: isTriangle_def split: if_splits)

lemma classify_Triangle:
  assumes "classify simplified circularity = Some (Triangle, conf)"
  shows "length simplified = 3 \<and> conf = Fin 0.95"
  using assms
  by (auto simp: classify_def Let_def dest: isTriangle_length split: if_splits)

lemma math_min_Fin: "math_min (Fin a) (Fin b) = Fin (min a b)"
  by (simp add: math_min_def min_def)

lemma math_max_Fin: "math_max (Fin a) (Fin b) = Fin (max a b)"
  by (simp add: math_max_def max_def)

lemma circle_confidence:
  assumes "num_gt circularity (Fin 0.85)"
  shows "\<exists>r. math_min (Fin 0.95) (num_add (Fin 0.7) (num_mul circularity (Fin 0.25))) = Fin r
             \<and> 0 \<le> r \<and> r \<le> 1"
proof (cases circularity)
  case (Fin x)
  with assms have x: "0.85 < x" by (simp add: num_gt_def)
  have "math_min (Fin 0.95) (num_add (Fin 0.7) (num_mul circularity (Fin 0.25)))
          = Fin (min 0.95 (0.7 + x * 0.25))"
    unfolding Fin by (simp add: math_min_Fin)
  moreover have "0 \<le> min 0.95 (0.7 + x * 0.25)" "min 0.95 (0.7 + x * 0.25) \<le> 1"
    using x by (simp_all add: min_def)
  ultimately show ?thesis by blast
next
  case PInf
  have "math_min (Fin 0.95) (num_add (Fin 0.7) (num_mul PInf (Fin 0.25))) = Fin 0.95"
    by (simp add: math_min_def)
  then show ?thesis unfolding PInf by (intro exI [of _ "0.95"]) simp
qed (use assms in \<open>simp_all add: num_gt_def\<close>)

lemma classify_confidence:
  assumes "classify simplified circularity = Some (ty, conf)"
  shows "\<exists>r. conf = Fin r \<and> 0 \<le> r \<and> r \<le> 1"
proof (cases "num_gt circularity (Fin 0.85) \<and> length simplified \<ge> 8")
  case True
  with assms have "conf = math_min (Fin 0.95) (num_add (Fin 0.7) (num_mul circularity (Fin 0.25)))"
    by (simp add: classify_def Let_def)
  with circle_confidence [of circularity] True show ?thesis by auto
next
  case False
  with assms show ?thesis
    by (auto simp: classify_def Let_def split: if_splits)
qed

definition circularityOf :: "point list \<Rightarrow> point list \<Rightarrow> number" where
  "circularityOf simplified originalContour =
     num_div (num_mul (num_mul (Fin 4) (Fin pi)) (calculateArea originalContour))
       (num_mul (calculatePerimeter simplified) (calculatePerimeter simplified))"

lemma classifyShape_Some:
  assumes "classifyShape simplified originalContour = Some s"
  shows "\<exists>conf. classify simplified (circularityOf simplified originalContour) = Some (shapeType s, conf)
           \<and> confidence s = math_min (Fin 1) conf
           \<and> area s = calculateArea originalContour
           \<and> box_x (boundingBox s) = minX (calculateBounds originalContour)
           \<and> box_y (boundingBox s) = minY (calculateBounds originalContour)
           \<and> box_width (boundingBox s) = bounds_width (calculateBounds originalContour)
           \<and> box_height (boundingBox s) = bounds_height (calculateBounds originalContour)
           \<and> cx (center s) = num_add (minX (calculateBounds originalContour))
                                (num_div (bounds_width (calculateBounds originalContour)) (Fin 2))
           \<and> cy (center s) = num_add (minY (calculateBounds originalContour))
                                (num_div (bounds_height (calculateBounds originalContour)) (Fin 2))"
  using assms
  by (auto simp: classifyShape_def circularityOf_def Let_def split: option.splits)

lemma classifyShape_of_classify:
  assumes "classify simplified (circularityOf simplified originalContour) = Some (ty, conf)"
  shows "\<exists>s. classifyShape simplified originalContour = Some s \<and> shapeType s = ty
           \<and> confidence s = math_min (Fin 1) conf \<and> area s = calculateArea originalContour"
  using assms by (simp add: classifyShape_def circularityOf_def Let_def)

lemma classifyShape_confidence:
  assumes "classifyShape simplified originalContour = Some s"
  shows "\<exists>r. confidence s = Fin r \<and> 0 \<le> r \<and> r \<le> 1"
proof -
  from classifyShape_Some [OF assms] obtain conf where
    c: "classify simplified (circularityOf simplified originalContour) = Some (shapeType s, conf)"
       "confidence s = math_min (Fin 1) conf" by blast
  from classify_confidence [OF c(1)] obtain r where "conf = Fin r" "0 \<le> r" "r \<le> 1" by blast
  with c(2) show ?thesis by (simp add: math_min_def)
qed

lemma boundsStep_fold_Fin:
  assumes "st = (Fin a, Fin b, Fin c, Fin d)" "a \<le> c" "b \<le> d"
  shows "\<exists>a' b' c' d'. fold boundsStep points st = (Fin a', Fin b', Fin c', Fin d') \<and> a' \<le> c' \<and> b' \<le> d'"
  using assms
proof (induction points arbitrary: st a b c d)
  case Nil
  then show ?case by simp
next
  case (Cons p points)
  have "boundsStep p st = (Fin (min a (real_of_int (px p))), Fin (min b (real_of_int (py p))),
                           Fin (max c (real_of_int (px p))), Fin (max d (real_of_int (py p))))"
    using Cons.prems(1) by (auto simp: boundsStep_def math_min_def math_max_def)
  from Cons.IH [OF this] Cons.prems(2,3) show ?case by (simp add: min_def max_def)
qed

lemma calculateBounds_nonempty:
  assumes "points \<noteq> []"
  shows "\<exists>a b w h. calculateBounds points
            = \<lparr>minX = Fin a, minY = Fin b, bounds_width = Fin w, bounds_height = Fin h\<rparr>
          \<and> 1 \<le> w \<and> 1 \<le> h"
proof -
  obtain p ps where points: "points = p # ps" using assms by (cases points) auto
  have "boundsStep p (PInf, PInf, NInf, NInf)
          = (Fin (real_of_int (px p)), Fin (real_of_int (py p)), Fin (real_of_int (px p)), Fin (real_of_int (py p)))"
    by (simp add: boundsStep_def math_min_def math_max_def)
  from boundsStep_fold_Fin [OF this, of ps]
  obtain a b c d where "fold boundsStep ps (boundsStep p (PInf, PInf, NInf, NInf)) = (Fin a, Fin b, Fin c, Fin d)"
    "a \<le> c" "b \<le> d" by auto
  then show ?thesis
    by (simp add: calculateBounds_def points num_sub_def)
qed

lemma classifyShape_center:
  assumes "classifyShape simplified originalContour = Some s" "originalContour \<noteq> []"
  shows "num_le (box_x (boundingBox s)) (cx (center s))
       \<and> num_le (cx (center s)) (num_add (box_x (boundingBox s)) (box_width (boundingBox s)))
       \<and> num_le (box_y (boundingBox s)) (cy (center s))
       \<and> num_le (cy (center s)) (num_add (box_y (boundingBox s)) (box_height (boundingBox s)))"
proof -
  from calculateBounds_nonempty [OF assms(2)] obtain a b w h where
    "calculateBounds originalContour = \<lparr>minX = Fin a, minY = Fin b, bounds_width = Fin w, bounds_height = Fin h\<rparr>"
    "1 \<le> w" "1 \<le> h" by blast
  with classifyShape_Some [OF assms(1)] show ?thesis
    by (auto simp: num_le_def)
qed

lemma math_sqrt_nonneg: "0 \<le> x \<Longrightarrow> math_sqrt (Fin x) = Fin (sqrt x)"
  by simp

lemma math_sqrt_sumsq: "math_sqrt (Fin (x * x + y * y)) = Fin (sqrt (x * x + y * y))"
  by (rule math_sqrt_nonneg) simp

lemma pointToLineDistance_Fin:
  "\<exists>d. pointToLineDistance p a b = Fin d \<and> 0 \<le> d"
proof -
  define C where "C = px b - px a"
  define D where "D = py b - py a"
  define param where "param = (if C * C + D * D \<noteq> 0
      then num_div (of_int_num ((px p - px a) * C + (py p - py a) * D)) (of_int_num (C * C + D * D))
      else Fin (- 1))"
  obtain t where t: "param = Fin t"
    by (cases "C * C + D * D = 0") (auto simp: param_def)
  define xx where "xx = (if num_lt param (Fin 0) then of_int_num (px a)
                else if num_gt param (Fin 1) then of_int_num (px b)
                else num_add (of_int_num (px a)) (num_mul param (of_int_num C)))"
  define yy where "yy = (if num_lt param (Fin 0) then of_int_num (py a)
                else if num_gt param (Fin 1) then of_int_num (py b)
                else num_add (of_int_num (py a)) (num_mul param (of_int_num D)))"
  have "\<exists>u. xx = Fin u" "\<exists>v. yy = Fin v"
    by (simp_all add: xx_def yy_def t num_gt_def)
  then obtain u v where uv: "xx = Fin u" "yy = Fin v" by blast
  have "pointToLineDistance p a b
          = math_sqrt (num_add (num_mul (num_sub (of_int_num (px p)) xx) (num_sub (of_int_num (px p)) xx))
                               (num_mul (num_sub (of_int_num (py p)) yy) (num_sub (of_int_num (py p)) yy)))"
    by (simp add: pointToLineDistance_def Let_def xx_def yy_def param_def C_def D_def)
  also have "\<dots> = Fin (sqrt ((real_of_int (px p) - u) * (real_of_int (px p) - u)
                           + (real_of_int (py p) - v) * (real_of_int (py p) - v)))"
    by (simp add: uv num_sub_def math_sqrt_sumsq del: math_sqrt.simps)
  finally show ?thesis by auto
qed

lemma pointToLineDistance_degenerate:
  "pointToLineDistance p a a
     = Fin (sqrt (real_of_int ((px p - px a)\<^sup>2 + (py p - py a)\<^sup>2)))"
  by (simp add: pointToLineDistance_def Let_def num_sub_def power2_eq_square
        math_sqrt_sumsq del: math_sqrt.simps)

lemma point_neq_sumsq:
  fixes p q :: point
  assumes "p \<noteq> q"
  shows "0 < (px p - px q) * (px p - px q) + (py p - py q) * (py p - py q)"
proof -
  from assms have "px p - px q \<noteq> 0 \<or> py p - py q \<noteq> 0" by (cases p; cases q) auto
  then have "(px p - px q) * (px p - px q) + (py p - py q) * (py p - py q) \<noteq> 0"
    by (auto simp: sum_squares_eq_zero_iff)
  moreover have "0 \<le> (px p - px q) * (px p - px q) + (py p - py q) * (py p - py q)" by simp
  ultimately show ?thesis by linarith
qed

lemma magnitudes_Fin:
  assumes "points ! ((i + length points - 1) mod length points) \<noteq> points ! i"
    and "points ! ((i + 1) mod length points) \<noteq> points ! i"
  shows "\<exists>m. magnitudes points i = Fin m \<and> 0 < m"
proof -
  let ?prev = "points ! ((i + length points - 1) mod length points)"
  let ?next = "points ! ((i + 1) mod length points)"
  let ?curr = "points ! i"
  let ?a = "(px ?prev - px ?curr) * (px ?prev - px ?curr) + (py ?prev - py ?curr) * (py ?prev - py ?curr)"
  let ?b = "(px ?next - px ?curr) * (px ?next - px ?curr) + (py ?next - py ?curr) * (py ?next - py ?curr)"
  have a: "0 < ?a" using assms(1) by (rule point_neq_sumsq)
  have b: "0 < ?b" using assms(2) by (rule point_neq_sumsq)
  have ra: "0 < real_of_int ?a" and rb: "0 < real_of_int ?b" using a b by linarith+
  have "magnitudes points i = num_mul (math_sqrt (of_int_num ?a)) (math_sqrt (of_int_num ?b))"
    by (simp add: magnitudes_def Let_def)
  also have "\<dots> = Fin (sqrt (real_of_int ?a) * sqrt (real_of_int ?b))"
    using ra rb by (simp del: of_int_add of_int_mult of_int_diff)
  finally show ?thesis using ra rb by (auto simp del: of_int_add of_int_mult of_int_diff)
qed

lemma clampedCos_Fin:
  assumes "magnitudes points i = Fin m" "m \<noteq> 0"
  shows "\<exists>c. clampedCos points i = Fin c \<and> - 1 \<le> c \<and> c \<le> 1"
proof -
  obtain d where "cosAngle points i = Fin d"
    using assms by (simp add: cosAngle_def Let_def)
  then have "clampedCos points i = Fin (max (- 1) (min 1 d))"
    by (simp add: clampedCos_def math_min_Fin math_max_Fin)
  then show ?thesis by (intro exI [of _ "max (- 1) (min 1 d)"]) simp
qed

lemma angle_Fin:
  assumes "clampedCos points i = Fin c" "- 1 \<le> c" "c \<le> 1"
  shows "num_mul (math_acos (clampedCos points i)) (num_div (Fin 180) (Fin pi))
           = Fin (arccos c * (180 / pi))"
  using assms by simp

lemma cyclic_prev:
  assumes "\<forall>i < length points. points ! i \<noteq> points ! ((i + 1) mod length points)" "i < length points"
  shows "points ! ((i + length points - 1) mod length points) \<noteq> points ! i"
proof -
  let ?n = "length points"
  let ?j = "(i + ?n - 1) mod ?n"
  have n: "0 < ?n" using assms(2) by (cases points) auto
  have j: "?j < ?n" using n by simp
  have "(?j + 1) mod ?n = (i + ?n - 1 + 1) mod ?n" by (simp add: mod_Suc_eq)
  also have "i + ?n - 1 + 1 = i + ?n" using n by simp
  also have "(i + ?n) mod ?n = i" using assms(2) by simp
  finally have "(?j + 1) mod ?n = i" .
  with assms(1) j show ?thesis by metis
qed

lemma calculateArea_Fin: "calculateArea points = Fin (\<bar>real_of_int (shoelace points)\<bar> / 2)"
  by (simp add: calculateArea_def)

section \<open>Executable characterisations\<close>

text \<open>
  The fallback loop compares square roots of integers; comparing the integers gives the
  same choices.  The state of the integer version is the nearest point and the squared
  distance to it (\<open>None\<close> while \<open>minDist\<close> is still \<open>Infinity\<close>).
\<close>

definition closestStepSq :: "point \<Rightarrow> point \<Rightarrow> point option \<times> int option \<Rightarrow> point option \<times> int option" where
  "closestStepSq current p st =
     (let d = (px p - px current)\<^sup>2 + (py p - py current)\<^sup>2 in
      if (case snd st of None \<Rightarrow> True | Some m \<Rightarrow> d < m) then (Some p, Some d) else st)"

definition sq_state :: "int option \<Rightarrow> number" where
  "sq_state m = (case m of None \<Rightarrow> PInf | Some d \<Rightarrow> Fin (sqrt (real_of_int d)))"

lemma closestStep_sq:
  assumes "snd st = sq_state (snd st')" "fst st = fst st'" "\<forall>d. snd st' = Some d \<longrightarrow> 0 \<le> d"
  shows "snd (closestStep c p st) = sq_state (snd (closestStepSq c p st'))
       \<and> fst (closestStep c p st) = fst (closestStepSq c p st')
       \<and> (\<forall>d. snd (closestStepSq c p st') = Some d \<longrightarrow> 0 \<le> d)"
proof -
  let ?d = "(px p - px c)\<^sup>2 + (py p - py c)\<^sup>2"
  have d0: "0 \<le> ?d" by simp
  have r: "real_of_int ?d = (real_of_int (px p) - real_of_int (px c))\<^sup>2 + (real_of_int (py p) - real_of_int (py c))\<^sup>2"
    by simp
  have s: "math_sqrt (of_int_num ?d) = Fin (sqrt (real_of_int ?d))"
    using d0 by (intro math_sqrt_nonneg) (simp del: of_int_add of_int_power of_int_diff)
  show ?thesis
  proof (cases "snd st'")
    case None
    with assms show ?thesis
      using s d0 by (simp add: closestStep_def closestStepSq_def Let_def sq_state_def del: math_sqrt.simps of_int_add of_int_power of_int_diff)
  next
    case (Some m)
    with assms have m: "0 \<le> m" by simp
    have "(sqrt (real_of_int ?d) < sqrt (real_of_int m)) = (?d < m)"
      by (simp del: of_int_add of_int_power of_int_diff)
    with Some assms show ?thesis
      using s d0 m by (simp add: closestStep_def closestStepSq_def Let_def sq_state_def del: math_sqrt.simps of_int_add of_int_power of_int_diff)
  qed
qed

lemma closestStep_fold_sq:
  assumes "snd st = sq_state (snd st')" "fst st = fst st'" "\<forall>d. snd st' = Some d \<longrightarrow> 0 \<le> d"
  shows "fst (fold (closestStep c) rs st) = fst (fold (closestStepSq c) rs st')"
  using assms
proof (induction rs arbitrary: st st')
  case Nil
  then show ?case by simp
next
  case (Cons r rs)
  from closestStep_sq [OF Cons.prems, of c r]
  have "snd (closestStep c r st) = sq_state (snd (closestStepSq c r st'))"
    "fst (closestStep c r st) = fst (closestStepSq c r st')"
    "\<forall>d. snd (closestStepSq c r st') = Some d \<longrightarrow> 0 \<le> d" by blast+
  from Cons.IH [OF this] show ?case by simp
qed

lemma selectNearest_code [code]:
  "selectNearest current remaining =
     (case fst (fold (nearbyStep current) remaining (None, PInf)) of
        Some nearest \<Rightarrow> Some nearest
      | None \<Rightarrow> fst (fold (closestStepSq current) remaining (None, None)))"
proof (cases "fst (fold (nearbyStep current) remaining (None, PInf))")
  case (Some n)
  then show ?thesis by (simp add: selectNearest_def Let_def)
next
  case None
  then have "snd (fold (nearbyStep current) remaining (None, PInf)) = PInf"
    by (simp add: nearbyStep_fold_None)
  moreover have "fst (fold (closestStep current) remaining (None, PInf))
                  = fst (fold (closestStepSq current) remaining (None, None))"
    by (rule closestStep_fold_sq) (simp_all add: sq_state_def)
  ultimately show ?thesis using None by (simp add: selectNearest_def Let_def)
qed

text \<open>
  The squared distance from a point to a segment, in exact arithmetic; the distance of the
  source is its square root.
\<close>

definition distSq :: "point \<Rightarrow> point \<Rightarrow> point \<Rightarrow> real" where
  "distSq p a b =
     (let C = px b - px a;
          D = py b - py a;
          dot = (px p - px a) * C + (py p - py a) * D;
          lenSq = C * C + D * D;
          t = (if lenSq \<noteq> 0 then real_of_int dot / real_of_int lenSq else - 1);
          xx = (if t < 0 then real_of_int (px a) else if 1 < t then real_of_int (px b)
                else real_of_int (px a) + t * real_of_int C);
          yy = (if t < 0 then real_of_int (py a) else if 1 < t then real_of_int (py b)
                else real_of_int (py a) + t * real_of_int D)
      in (real_of_int (px p) - xx) * (real_of_int (px p) - xx)
         + (real_of_int (py p) - yy) * (real_of_int (py p) - yy))"

lemma distSq_nonneg: "0 \<le> distSq p a b"
  by (simp add: distSq_def Let_def)

lemma pointToLineDistance_distSq: "pointToLineDistance p a b = Fin (sqrt (distSq p a b))"
proof -
  define C where "C = px b - px a"
  define D where "D = py b - py a"
  define dot where "dot = (px p - px a) * C + (py p - py a) * D"
  define lenSq where "lenSq = C * C + D * D"
  define t where "t = (if lenSq \<noteq> 0 then real_of_int dot / real_of_int lenSq else - 1)"
  define xx where "xx = (if t < 0 then real_of_int (px a) else if 1 < t then real_of_int (px b)
                else real_of_int (px a) + t * real_of_int C)"
  define yy where "yy = (if t < 0 then real_of_int (py a) else if 1 < t then real_of_int (py b)
                else real_of_int (py a) + t * real_of_int D)"
  have param: "(if lenSq \<noteq> 0 then num_div (of_int_num dot) (of_int_num lenSq) else Fin (- 1)) = Fin t"
    by (simp add: t_def)
  have xx: "(if num_lt (Fin t) (Fin 0) then of_int_num (px a)
             else if num_gt (Fin t) (Fin 1) then of_int_num (px b)
             else num_add (of_int_num (px a)) (num_mul (Fin t) (of_int_num C))) = Fin xx"
    by (simp add: xx_def num_gt_def)
  have yy: "(if num_lt (Fin t) (Fin 0) then of_int_num (py a)
             else if num_gt (Fin t) (Fin 1) then of_int_num (py b)
             else num_add (of_int_num (py a)) (num_mul (Fin t) (of_int_num D))) = Fin yy"
    by (simp add: yy_def num_gt_def)
  have "pointToLineDistance p a b
          = math_sqrt (num_add (num_mul (num_sub (of_int_num (px p)) (Fin xx)) (num_sub (of_int_num (px p)) (Fin xx)))
                               (num_mul (num_sub (of_int_num (py p)) (Fin yy)) (num_sub (of_int_num (py p)) (Fin yy))))"
    unfolding pointToLineDistance_def Let_def
    unfolding C_def [symmetric] D_def [symmetric]
    unfolding dot_def [symmetric] lenSq_def [symmetric]
    unfolding param xx yy ..
  also have "\<dots> = Fin (sqrt ((real_of_int (px p) - xx) * (real_of_int (px p) - xx)
                           + (real_of_int (py p) - yy) * (real_of_int (py p) - yy)))"
    by (simp add: num_sub_def math_sqrt_sumsq del: math_sqrt.simps)
  also have "(real_of_int (px p) - xx) * (real_of_int (px p) - xx)
                           + (real_of_int (py p) - yy) * (real_of_int (py p) - yy) = distSq p a b"
    unfolding distSq_def Let_def
    unfolding C_def [symmetric] D_def [symmetric]
    unfolding dot_def [symmetric] lenSq_def [symmetric]
    unfolding t_def [symmetric]
    unfolding xx_def [symmetric] yy_def [symmetric] ..
  finally show ?thesis .
qed

text \<open>The search for the farthest point on squared distances.\<close>

definition farthestStepSq :: "point list \<Rightarrow> nat \<Rightarrow> real \<times> nat \<Rightarrow> real \<times> nat" where
  "farthestStepSq contour i st =
     (let d = distSq (contour ! i) (contour ! 0) (contour ! (length contour - 1))
      in if fst st < d then (d, i) else st)"

definition farthestSq :: "point list \<Rightarrow> real \<times> nat" where
  "farthestSq contour = fold (farthestStepSq contour) [1 ..< length contour - 1] (0, 0)"

lemma farthestStep_sq:
  assumes "0 \<le> m"
  shows "farthestStep contour i (Fin (sqrt m), k)
           = (Fin (sqrt (fst (farthestStepSq contour i (m, k)))), snd (farthestStepSq contour i (m, k)))
         \<and> 0 \<le> fst (farthestStepSq contour i (m, k))"
  using assms distSq_nonneg [of "contour ! i" "contour ! 0" "contour ! (length contour - 1)"]
  by (simp add: farthestStep_def farthestStepSq_def Let_def pointToLineDistance_distSq num_gt_def)

lemma farthest_fold_sq:
  assumes "0 \<le> m"
  shows "fold (farthestStep contour) is (Fin (sqrt m), k)
           = (Fin (sqrt (fst (fold (farthestStepSq contour) is (m, k)))),
              snd (fold (farthestStepSq contour) is (m, k)))"
  using assms
proof (induction "is" arbitrary: m k)
  case Nil
  then show ?case by simp
next
  case (Cons i "is")
  obtain m' k' where st: "farthestStepSq contour i (m, k) = (m', k')" by (cases "farthestStepSq contour i (m, k)")
  from farthestStep_sq [OF Cons.prems, of contour i k] st
  have "farthestStep contour i (Fin (sqrt m), k) = (Fin (sqrt m'), k')" "0 \<le> m'" by simp_all
  with Cons.IH [of m' k'] st show ?case by simp
qed

lemma farthest_sq:
  "farthest contour = (Fin (sqrt (fst (farthestSq contour))), snd (farthestSq contour))"
  using farthest_fold_sq [of 0 contour "[1 ..< length contour - 1]" 0]
  by (simp add: farthest_def farthestSq_def)

lemma farthestSq_nonneg: "0 \<le> fst (farthestSq contour)"
proof -
  have "0 \<le> m \<Longrightarrow> 0 \<le> fst (fold (farthestStepSq contour) is (m, k))" for m k "is"
  proof (induction "is" arbitrary: m k)
    case Nil
    then show ?case by simp
  next
    case (Cons i "is")
    obtain m' k' where st: "farthestStepSq contour i (m, k) = (m', k')" by (cases "farthestStepSq contour i (m, k)")
    with farthestStep_sq [OF Cons.prems, of contour i k] have "0 \<le> m'" by simp
    from Cons.IH [OF this] st show ?case by simp
  qed
  then show ?thesis by (simp add: farthestSq_def)
qed

lemma farthest_gt_two: "num_gt (fst (farthest contour)) (Fin 2) = (4 < fst (farthestSq contour))"
proof -
  have "(2 < sqrt (fst (farthestSq contour))) = (sqrt 4 < sqrt (fst (farthestSq contour)))"
    by simp
  also have "\<dots> = (4 < fst (farthestSq contour))"
    by (simp only: real_sqrt_less_iff)
  finally show ?thesis by (simp add: farthest_sq num_gt_def)
qed

lemma farthestSq_index:
  assumes "4 < fst (farthestSq contour)"
  shows "1 \<le> snd (farthestSq contour) \<and> snd (farthestSq contour) < length contour - 1"
proof -
  have "num_gt (fst (farthest contour)) (Fin 2)" using assms by (simp add: farthest_gt_two)
  from farthest_index [OF this] show ?thesis by (simp add: farthest_sq)
qed

text \<open>With the tolerance 2 of the pipeline the simplifier is a total function.\<close>

function simplifySq :: "point list \<Rightarrow> point list" where
  "simplifySq contour =
     (if length contour \<le> 2 then contour
      else if 4 < fst (farthestSq contour)
      then butlast (simplifySq (take (snd (farthestSq contour) + 1) contour))
             @ simplifySq (drop (snd (farthestSq contour)) contour)
      else [contour ! 0, contour ! (length contour - 1)])"
  by pat_completeness auto
termination
proof (relation "measure length")
  show "wf (measure length)" by simp
next
  fix contour :: "point list"
  assume "\<not> length contour \<le> 2" "4 < fst (farthestSq contour)"
  with farthestSq_index [of contour]
  show "(take (snd (farthestSq contour) + 1) contour, contour) \<in> measure length" by auto
next
  fix contour :: "point list"
  assume "\<not> length contour \<le> 2" "4 < fst (farthestSq contour)"
  with farthestSq_index [of contour]
  show "(drop (snd (farthestSq contour)) contour, contour) \<in> measure length" by auto
qed

declare simplifySq.simps [simp del]

lemma simplifyContour_simplifySq: "simplifyContour contour (Fin 2) = Some (simplifySq contour)"
proof (induction contour rule: simplifySq.induct)
  case (1 contour)
  show ?case
  proof (cases "length contour \<le> 2")
    case True
    then show ?thesis
      by (subst simplifyContour.simps, subst simplifySq.simps) simp
  next
    case long: False
    show ?thesis
    proof (cases "4 < fst (farthestSq contour)")
      case True
      have snd_eq: "snd (farthest contour) = snd (farthestSq contour)" by (simp add: farthest_sq)
      from "1.IH" [OF long True] show ?thesis
        using long True
        by (subst simplifyContour.simps, subst simplifySq.simps)
           (simp add: farthest_gt_two snd_eq)
    next
      case False
      then show ?thesis
        using long
        by (subst simplifyContour.simps, subst simplifySq.simps) (simp add: farthest_gt_two)
    qed
  qed
qed

section \<open>Properties of the component extractor\<close>

text \<open>
  The points collected by the flood fill are distinct pixels of the image that have been
  marked as visited; the boundary points are some of them.
\<close>

definition collected :: "int \<Rightarrow> int \<Rightarrow> bool list \<Rightarrow> point list \<Rightarrow> point list \<Rightarrow> bool" where
  "collected w h visited allPoints boundaryPoints =
     (distinct allPoints \<and> distinct boundaryPoints \<and> set boundaryPoints \<subseteq> set allPoints
      \<and> (\<forall>p \<in> set allPoints. \<not> outOfBounds w h p \<and> array_get visited (pixelIndex w p)))"

lemma collected_step:
  assumes "collected w h visited allPoints boundaryPoints"
    and "\<not> outOfBounds w h p" "\<not> array_get visited (pixelIndex w p)"
  shows "collected w h (array_set visited (pixelIndex w p) True) (allPoints @ [p])
           (if b then boundaryPoints @ [p] else boundaryPoints)"
proof -
  from assms(1,3) have "p \<notin> set allPoints" by (auto simp: collected_def)
  with assms(1,2) show ?thesis
    by (auto simp: collected_def array_get_array_set)
qed

lemma floodFill_loop_collected:
  assumes "floodFill_loop binary w h visited allPoints boundaryPoints stack
             = (visited', allPoints', boundaryPoints')"
    and "collected w h visited allPoints boundaryPoints"
  shows "collected w h visited' allPoints' boundaryPoints'"
  using assms
proof (induction binary w h visited allPoints boundaryPoints stack rule: floodFill_loop.induct)
  case (1 binary w h visited allPoints boundaryPoints)
  then show ?case by simp
next
  case (2 binary w h visited allPoints boundaryPoints p stack)
  show ?case
  proof (cases "outOfBounds w h p \<or> array_get visited (pixelIndex w p)
                  \<or> \<not> array_get binary (pixelIndex w p)")
    case True
    with "2.prems" have "floodFill_loop binary w h visited allPoints boundaryPoints stack
             = (visited', allPoints', boundaryPoints')" by simp
    from "2.IH"(1) [OF True this "2.prems"(2)] show ?thesis .
  next
    case False
    with "2.prems" have run: "floodFill_loop binary w h (array_set visited (pixelIndex w p) True)
             (allPoints @ [p])
             (if isBoundary binary w h p then boundaryPoints @ [p] else boundaryPoints)
             (rev (neighbours8 p) @ stack)
           = (visited', allPoints', boundaryPoints')" by simp
    from False have "\<not> outOfBounds w h p" "\<not> array_get visited (pixelIndex w p)" by auto
    from collected_step [OF "2.prems"(2) this]
    have "collected w h (array_set visited (pixelIndex w p) True) (allPoints @ [p])
           (if isBoundary binary w h p then boundaryPoints @ [p] else boundaryPoints)" .
    from "2.IH"(2) [OF False run this] show ?thesis .
  qed
qed

declare floodFill_loop.simps [simp del]

text \<open>A contour is a list of distinct pixels of the image.\<close>

definition contour_ok :: "int \<Rightarrow> int \<Rightarrow> point list \<Rightarrow> bool" where
  "contour_ok w h contour = (distinct contour \<and> (\<forall>p \<in> set contour. \<not> outOfBounds w h p))"

lemma floodFill_contour:
  assumes "floodFill_loop binary w h visited [] [] [\<lparr>px = x, py = y\<rparr>]
             = (visited', allPoints, boundaryPoints)"
  shows "fst (floodFill binary visited x y w h) = visited'
       \<and> mset (snd (floodFill binary visited x y w h))
           = mset (if boundaryPoints = [] then allPoints else boundaryPoints)
       \<and> contour_ok w h (snd (floodFill binary visited x y w h))"
proof -
  have "collected w h visited [] []" by (simp add: collected_def)
  from floodFill_loop_collected [OF assms this]
  have c: "collected w h visited' allPoints boundaryPoints" .
  show ?thesis
  proof (cases "boundaryPoints = []")
    case True
    with assms c show ?thesis
      by (auto simp: floodFill_def collected_def contour_ok_def)
  next
    case False
    from c have d: "distinct boundaryPoints" by (simp add: collected_def)
    let ?c = "orderBoundaryPoints boundaryPoints allPoints"
    have m: "mset ?c = mset boundaryPoints"
      using False d by (rule mset_orderBoundaryPoints)
    then have "set ?c = set boundaryPoints" by (rule mset_eq_setD)
    moreover have "distinct ?c" using m d mset_eq_imp_distinct_iff by blast
    ultimately have "contour_ok w h ?c"
      using c by (auto simp: contour_ok_def collected_def)
    with m False assms show ?thesis by (simp add: floodFill_def)
  qed
qed

lemma scanPixel_emitted:
  assumes "\<forall>c \<in> set (snd st). 10 < length c \<and> contour_ok w h c"
  shows "\<forall>c \<in> set (snd (scanPixel binary w h y x st)). 10 < length c \<and> contour_ok w h c"
proof -
  obtain visited contours where st: "st = (visited, contours)" by (cases st)
  obtain visited' allPoints boundaryPoints where
    run: "floodFill_loop binary w h visited [] [] [\<lparr>px = x, py = y\<rparr>]
             = (visited', allPoints, boundaryPoints)"
    by (cases "floodFill_loop binary w h visited [] [] [\<lparr>px = x, py = y\<rparr>]")
  from floodFill_contour [OF run]
  have ok: "contour_ok w h (snd (floodFill binary visited x y w h))" by simp
  obtain v' contour where ff: "floodFill binary visited x y w h = (v', contour)"
    by (cases "floodFill binary visited x y w h")
  with ok have ok': "contour_ok w h contour" by simp
  have "snd (scanPixel binary w h y x st) = contours
      \<or> (snd (scanPixel binary w h y x st) = contours @ [contour] \<and> 10 < length contour)"
    by (simp add: scanPixel_def st Let_def ff)
  with assms ok' show ?thesis by (auto simp: st)
qed

lemma scanRow_emitted:
  assumes "\<forall>c \<in> set (snd st). 10 < length c \<and> contour_ok w h c"
  shows "\<forall>c \<in> set (snd (fold (scanPixel binary w h y) xs st)). 10 < length c \<and> contour_ok w h c"
  using assms
proof (induction xs arbitrary: st)
  case Nil
  then show ?case by simp
next
  case (Cons x xs)
  from scanPixel_emitted [OF Cons.prems]
  have "\<forall>c \<in> set (snd (scanPixel binary w h y x st)). 10 < length c \<and> contour_ok w h c" .
  from Cons.IH [OF this] show ?case by simp
qed

lemma scanRows_emitted:
  assumes "\<forall>c \<in> set (snd st). 10 < length c \<and> contour_ok w h c"
  shows "\<forall>c \<in> set (snd (fold (\<lambda>y. fold (scanPixel binary w h y) xs) ys st)).
           10 < length c \<and> contour_ok w h c"
  using assms
proof (induction ys arbitrary: st)
  case Nil
  then show ?case by simp
next
  case (Cons y ys)
  from scanRow_emitted [OF Cons.prems]
  have "\<forall>c \<in> set (snd (fold (scanPixel binary w h y) xs st)). 10 < length c \<and> contour_ok w h c" .
  from Cons.IH [OF this] show ?case by simp
qed

lemma findContours_emitted:
  "\<forall>c \<in> set (findContours binary w h). 10 < length c \<and> contour_ok w h c"
proof -
  have "\<forall>c \<in> set (snd (replicate (nat (w * h)) False, [] :: point list list)).
          10 < length c \<and> contour_ok w h c" by simp
  from scanRows_emitted [OF this] show ?thesis unfolding findContours_def .
qed

text \<open>The shoelace sum of \<open>n\<close> pixels of a \<open>w\<close> by \<open>h\<close> image.\<close>

lemma cross_bound:
  fixes a b c d :: int
  assumes "0 \<le> a" "a \<le> X" "0 \<le> b" "b \<le> Y" "0 \<le> c" "c \<le> X" "0 \<le> d" "d \<le> Y"
  shows "\<bar>a * d - c * b\<bar> \<le> X * Y"
proof -
  have "a * d \<le> X * Y" using assms by (intro mult_mono) auto
  moreover have "c * b \<le> X * Y" using assms by (intro mult_mono) auto
  moreover have "0 \<le> a * d" "0 \<le> c * b" using assms by auto
  ultimately show ?thesis by linarith
qed

lemma int_mult_pred_nonneg: "0 \<le> w * (w - 1)" for w :: int
  by (cases "0 < w") (auto simp: zero_le_mult_iff)

lemma in_bounds_coords:
  assumes "\<not> outOfBounds w h p"
  shows "0 \<le> px p \<and> px p \<le> w - 1 \<and> 0 \<le> py p \<and> py p \<le> h - 1"
  using assms by (auto simp: outOfBounds_def)

lemma shoelace_fold_bound:
  assumes "\<forall>p \<in> set points. \<not> outOfBounds w h p" "\<forall>i \<in> set is. i < length points"
  shows "\<bar>fold (\<lambda>i acc. let j = (i + 1) mod length points in
                      acc + px (points ! i) * py (points ! j) - px (points ! j) * py (points ! i))
            is acc\<bar> \<le> \<bar>acc\<bar> + int (length is) * ((w - 1) * (h - 1))"
  using assms(2)
proof (induction "is" arbitrary: acc)
  case Nil
  then show ?case by simp
next
  case (Cons i "is")
  let ?j = "(i + 1) mod length points"
  let ?acc = "acc + px (points ! i) * py (points ! ?j) - px (points ! ?j) * py (points ! i)"
  have i: "i < length points" using Cons.prems by simp
  then have "0 < length points" by (cases points) auto
  then have j: "?j < length points" by (rule mod_less_divisor)
  have pi: "\<not> outOfBounds w h (points ! i)"
    using assms(1) nth_mem [OF i] by blast
  have pj: "\<not> outOfBounds w h (points ! ?j)"
    using assms(1) nth_mem [OF j] by blast
  have "\<bar>px (points ! i) * py (points ! ?j) - px (points ! ?j) * py (points ! i)\<bar>
          \<le> (w - 1) * (h - 1)"
    using in_bounds_coords [OF pi] in_bounds_coords [OF pj] by (intro cross_bound) auto
  then have step: "\<bar>?acc\<bar> \<le> \<bar>acc\<bar> + (w - 1) * (h - 1)" by linarith
  have "\<forall>i \<in> set is. i < length points" using Cons.prems by simp
  from Cons.IH [OF this, of ?acc]
  have "\<bar>fold (\<lambda>i acc. let j = (i + 1) mod length points in
                      acc + px (points ! i) * py (points ! j) - px (points ! j) * py (points ! i))
            is ?acc\<bar> \<le> \<bar>?acc\<bar> + int (length is) * ((w - 1) * (h - 1))" .
  with step show ?case by (simp add: Let_def algebra_simps)
qed

lemma shoelace_bound:
  assumes "\<forall>p \<in> set points. \<not> outOfBounds w h p"
  shows "\<bar>shoelace points\<bar> \<le> int (length points) * ((w - 1) * (h - 1))"
  using shoelace_fold_bound [OF assms, of "[0 ..< length points]" 0]
  by (simp add: shoelace_def)

text \<open>Distinct pixels of the image are at most \<open>w * h\<close> many.\<close>

lemma pixelIndex_inj:
  assumes "\<not> outOfBounds w h p" "\<not> outOfBounds w h q" "pixelIndex w p = pixelIndex w q"
  shows "p = q"
proof -
  from assms(1,2) have b: "0 \<le> px p" "px p < w" "0 \<le> py p" "0 \<le> px q" "px q < w" "0 \<le> py q"
    by (auto simp: outOfBounds_def)
  then have "0 \<le> py p * w + px p" "0 \<le> py q * w + px q" by auto
  with assms(3) have e: "py p * w + px p = py q * w + px q" by (simp add: pixelIndex_def)
  have "(py p * w + px p) mod w = px p" "(py q * w + px q) mod w = px q"
    using b by simp_all
  with e have x: "px p = px q" by simp
  with e have "py p * w = py q * w" by simp
  with b have "py p = py q" by simp
  with x show ?thesis by simp
qed

lemma contour_length_bound:
  assumes "contour_ok w h contour" "contour \<noteq> []"
  shows "int (length contour) \<le> w * h"
proof -
  from assms(2) obtain p where p: "p \<in> set contour" by (cases contour) auto
  with assms(1) have "\<not> outOfBounds w h p" by (simp add: contour_ok_def)
  then have pos: "0 < w" "0 < h" by (auto simp: outOfBounds_def)
  have inj: "inj_on (pixelIndex w) (set contour)"
    using assms(1) by (auto simp: inj_on_def contour_ok_def intro: pixelIndex_inj)
  have "pixelIndex w ` set contour \<subseteq> {..< nat (w * h)}"
    using assms(1) pixelIndex_less by (auto simp: contour_ok_def)
  then have "card (pixelIndex w ` set contour) \<le> card {..< nat (w * h)}"
    by (intro card_mono) auto
  then have "card (set contour) \<le> nat (w * h)" using inj by (simp add: card_image)
  moreover have "card (set contour) = length contour"
    using assms(1) by (simp add: contour_ok_def distinct_card)
  ultimately have "length contour \<le> nat (w * h)" by simp
  moreover have "0 \<le> w * h" using pos by simp
  ultimately show ?thesis by linarith
qed

lemma calculateArea_bound:
  assumes "contour_ok w h contour"
  shows "\<exists>a. calculateArea contour = Fin a \<and> 0 \<le> a
             \<and> a \<le> real_of_int (w * h * ((w - 1) * (h - 1))) / 2"
proof -
  have a: "calculateArea contour = Fin (\<bar>real_of_int (shoelace contour)\<bar> / 2)"
    by (rule calculateArea_Fin)
  show ?thesis
  proof (cases "contour = []")
    case True
    then have "shoelace contour = 0" by (simp add: shoelace_def)
    moreover have "0 \<le> w * h * ((w - 1) * (h - 1))"
    proof -
      have "0 \<le> (w * (w - 1)) * (h * (h - 1))"
        by (intro mult_nonneg_nonneg int_mult_pred_nonneg)
      then show ?thesis by (simp add: algebra_simps)
    qed
    ultimately have "calculateArea contour = Fin 0"
      "0 \<le> real_of_int (w * h * ((w - 1) * (h - 1))) / 2"
      using a by (simp_all del: of_int_mult of_int_diff)
    then show ?thesis by (intro exI [of _ 0]) simp
  next
    case False
    then obtain p where p: "p \<in> set contour" by (cases contour) auto
    with assms have "\<not> outOfBounds w h p" by (simp add: contour_ok_def)
    then have pos: "0 \<le> (w - 1) * (h - 1)" by (auto simp: outOfBounds_def)
    have "\<bar>shoelace contour\<bar> \<le> int (length contour) * ((w - 1) * (h - 1))"
      using assms by (intro shoelace_bound) (simp add: contour_ok_def)
    also have "\<dots> \<le> (w * h) * ((w - 1) * (h - 1))"
      using contour_length_bound [OF assms False] pos by (intro mult_right_mono)
    finally have "\<bar>shoelace contour\<bar> \<le> w * h * ((w - 1) * (h - 1))" .
    then have "\<bar>real_of_int (shoelace contour)\<bar> \<le> real_of_int (w * h * ((w - 1) * (h - 1)))"
      by (metis of_int_abs of_int_le_iff)
    then have "\<bar>real_of_int (shoelace contour)\<bar> / 2
                 \<le> real_of_int (w * h * ((w - 1) * (h - 1))) / 2"
      by (rule divide_right_mono) simp
    moreover have "0 \<le> \<bar>real_of_int (shoelace contour)\<bar> / 2" by simp
    ultimately show ?thesis using a by blast
  qed
qed

section \<open>Connected components\<close>

text \<open>
  The source has no notion of a component; the following four definitions state the
  specification's notions, with which its flood fill and its scan are compared.
\<close>

text \<open>
  Modelled from the spec: a dark pixel of the mask, a position inside the image whose entry
  in the mask is true.
\<close>

definition darkPixel :: "bool list \<Rightarrow> int \<Rightarrow> int \<Rightarrow> point \<Rightarrow> bool" where
  "darkPixel binary w h p = (\<not> outOfBounds w h p \<and> array_get binary (pixelIndex w p))"

text \<open>
  Modelled from the spec: 8-connectivity, two dark pixels that are neighbours, diagonals
  included.
\<close>

definition linked :: "bool list \<Rightarrow> int \<Rightarrow> int \<Rightarrow> (point \<times> point) set" where
  "linked binary w h =
     {(p, q). darkPixel binary w h p \<and> darkPixel binary w h q \<and> q \<in> set (neighbours8 p)}"

text \<open>
  Modelled from the spec: the connected component of a dark pixel, the maximal set of dark
  pixels mutually reachable via 8-connectivity.
\<close>

definition component :: "bool list \<Rightarrow> int \<Rightarrow> int \<Rightarrow> point \<Rightarrow> point set" where
  "component binary w h p = {q. (p, q) \<in> (linked binary w h)\<^sup>*}"

text \<open>
  Modelled from the spec: the boundary pixels of a component, its pixels with a neighbour
  that is light or out of bounds.
\<close>

definition boundaryPixels :: "bool list \<Rightarrow> int \<Rightarrow> int \<Rightarrow> point set \<Rightarrow> point set" where
  "boundaryPixels binary w h C = {p \<in> C. isBoundary binary w h p}"

lemma neighbours8_sym: "q \<in> set (neighbours8 p) \<Longrightarrow> p \<in> set (neighbours8 q)"
  by (auto simp: neighbours8_def)

lemma neighbour_above: "\<lparr>px = px q, py = py q - 1\<rparr> \<in> set (neighbours8 q)"
  by (simp add: neighbours8_def)

lemma sym_linked: "sym (linked binary w h)"
proof (rule symI)
  fix p q assume "(p, q) \<in> linked binary w h"
  then have "darkPixel binary w h p" "darkPixel binary w h q" "q \<in> set (neighbours8 p)"
    by (simp_all add: linked_def)
  with neighbours8_sym [of q p] show "(q, p) \<in> linked binary w h"
    by (simp add: linked_def)
qed

lemma component_refl: "p \<in> component binary w h p"
  by (simp add: component_def)

lemma component_dark:
  assumes "darkPixel binary w h p" "q \<in> component binary w h p"
  shows "darkPixel binary w h q"
proof -
  from assms(2) have "(p, q) \<in> (linked binary w h)\<^sup>*" by (simp add: component_def)
  then show ?thesis using assms(1)
    by (induction rule: rtrancl_induct) (simp_all add: linked_def)
qed

lemma component_step:
  assumes "r \<in> component binary w h p" "darkPixel binary w h r" "darkPixel binary w h q"
    "q \<in> set (neighbours8 r)"
  shows "q \<in> component binary w h p"
proof -
  have "(r, q) \<in> linked binary w h" using assms(2-4) by (simp add: linked_def)
  moreover have "(p, r) \<in> (linked binary w h)\<^sup>*" using assms(1) by (simp add: component_def)
  ultimately have "(p, q) \<in> (linked binary w h)\<^sup>*" by (rule rtrancl_into_rtrancl [rotated])
  then show ?thesis by (simp add: component_def)
qed

lemma component_sym:
  assumes "q \<in> component binary w h p"
  shows "p \<in> component binary w h q"
proof -
  have "sym ((linked binary w h)\<^sup>*)" using sym_linked by (rule sym_rtrancl)
  moreover have "(p, q) \<in> (linked binary w h)\<^sup>*" using assms by (simp add: component_def)
  ultimately have "(q, p) \<in> (linked binary w h)\<^sup>*" by (rule symD)
  then show ?thesis by (simp add: component_def)
qed

lemma component_eq:
  assumes "q \<in> component binary w h p"
  shows "component binary w h q = component binary w h p"
proof -
  have a: "(p, q) \<in> (linked binary w h)\<^sup>*" using assms by (simp add: component_def)
  have b: "(q, p) \<in> (linked binary w h)\<^sup>*"
    using component_sym [OF assms] by (simp add: component_def)
  show ?thesis
  proof (intro set_eqI iffI)
    fix r assume "r \<in> component binary w h q"
    then have "(q, r) \<in> (linked binary w h)\<^sup>*" by (simp add: component_def)
    with a have "(p, r) \<in> (linked binary w h)\<^sup>*" by (rule rtrancl_trans)
    then show "r \<in> component binary w h p" by (simp add: component_def)
  next
    fix r assume "r \<in> component binary w h p"
    then have "(p, r) \<in> (linked binary w h)\<^sup>*" by (simp add: component_def)
    with b have "(q, r) \<in> (linked binary w h)\<^sup>*" by (rule rtrancl_trans)
    then show "r \<in> component binary w h q" by (simp add: component_def)
  qed
qed

text \<open>Every component has a boundary pixel: a topmost one.\<close>

lemma component_has_boundary:
  assumes "darkPixel binary w h p"
  shows "\<exists>q \<in> component binary w h p. isBoundary binary w h q"
proof -
  let ?C = "component binary w h p"
  have "p \<in> ?C" by (rule component_refl)
  from ex_has_least_nat [of "\<lambda>q. q \<in> ?C" p "\<lambda>q. nat (py q)", OF this]
  obtain q where q: "q \<in> ?C" "\<forall>r. r \<in> ?C \<longrightarrow> nat (py q) \<le> nat (py r)" by blast
  have dq: "darkPixel binary w h q" using assms q(1) by (rule component_dark)
  let ?n = "\<lparr>px = px q, py = py q - 1\<rparr>"
  have n: "?n \<in> set (neighbours8 q)" by (rule neighbour_above)
  have "\<not> darkPixel binary w h ?n"
  proof
    assume dn: "darkPixel binary w h ?n"
    from component_step [OF q(1) dq dn n] have "?n \<in> ?C" .
    with q(2) have "nat (py q) \<le> nat (py ?n)" by blast
    moreover have "0 \<le> py ?n" using dn by (simp add: darkPixel_def outOfBounds_def)
    ultimately show False by simp
  qed
  then have "outOfBounds w h ?n \<or> \<not> array_get binary (pixelIndex w ?n)"
    by (auto simp: darkPixel_def)
  then have "isBoundary binary w h q"
    using n unfolding isBoundary_def list_ex_iff by (intro bexI [of _ ?n]) auto
  with q(1) show ?thesis by blast
qed

section \<open>The flood fill collects a component\<close>

lemma visited_mark:
  assumes "\<not> outOfBounds w h p" "\<not> outOfBounds w h q"
  shows "array_get (array_set visited (pixelIndex w p) True) (pixelIndex w q)
           = (q = p \<or> array_get visited (pixelIndex w q))"
  using pixelIndex_inj [OF assms(2) assms(1)]
  by (auto simp: array_get_array_set)

text \<open>
  The state of the loop while it fills the component of the dark pixel \<open>p0\<close>, which had no
  marked pixel in the mask \<open>V0\<close> at the start.
\<close>

definition fill_inv ::
  "bool list \<Rightarrow> int \<Rightarrow> int \<Rightarrow> bool list \<Rightarrow> point \<Rightarrow> bool list \<Rightarrow> point list \<Rightarrow> point list
     \<Rightarrow> point list \<Rightarrow> bool" where
  "fill_inv binary w h V0 p0 visited allPoints boundaryPoints stack =
     (distinct allPoints \<and> set allPoints \<subseteq> component binary w h p0
      \<and> (\<forall>q. \<not> outOfBounds w h q \<longrightarrow>
             array_get visited (pixelIndex w q)
               = (array_get V0 (pixelIndex w q) \<or> q \<in> set allPoints))
      \<and> (\<forall>s \<in> set stack. s = p0 \<or> (\<exists>r \<in> set allPoints. s \<in> set (neighbours8 r)))
      \<and> (\<forall>r \<in> set allPoints. \<forall>q \<in> set (neighbours8 r).
             darkPixel binary w h q \<longrightarrow> q \<in> set allPoints \<or> q \<in> set stack)
      \<and> (p0 \<in> set allPoints \<or> p0 \<in> set stack)
      \<and> boundaryPoints = filter (isBoundary binary w h) allPoints)"

definition fill_start :: "bool list \<Rightarrow> int \<Rightarrow> int \<Rightarrow> bool list \<Rightarrow> point \<Rightarrow> bool" where
  "fill_start binary w h V0 p0 =
     (darkPixel binary w h p0
      \<and> (\<forall>q \<in> component binary w h p0. \<not> array_get V0 (pixelIndex w q)))"

lemma fill_inv_member:
  assumes s: "fill_start binary w h V0 p0"
    and i: "fill_inv binary w h V0 p0 visited allPoints boundaryPoints stack"
    and q: "q \<in> component binary w h p0" "array_get visited (pixelIndex w q)"
  shows "q \<in> set allPoints"
proof -
  have "darkPixel binary w h p0" using s by (simp add: fill_start_def)
  then have "darkPixel binary w h q" using q(1) by (rule component_dark)
  then have "\<not> outOfBounds w h q" by (simp add: darkPixel_def)
  with i q(2) have "array_get V0 (pixelIndex w q) \<or> q \<in> set allPoints"
    by (simp add: fill_inv_def)
  with s q(1) show ?thesis by (auto simp: fill_start_def)
qed

lemma fill_inv_head:
  assumes s: "fill_start binary w h V0 p0"
    and i: "fill_inv binary w h V0 p0 visited allPoints boundaryPoints (p # stack)"
    and d: "darkPixel binary w h p"
  shows "p \<in> component binary w h p0"
proof -
  from i have "p = p0 \<or> (\<exists>r \<in> set allPoints. p \<in> set (neighbours8 r))"
    by (simp add: fill_inv_def)
  then show ?thesis
  proof
    assume "p = p0"
    then show ?thesis by (simp add: component_refl)
  next
    assume "\<exists>r \<in> set allPoints. p \<in> set (neighbours8 r)"
    then obtain r where r: "r \<in> set allPoints" "p \<in> set (neighbours8 r)" by blast
    from i r(1) have rc: "r \<in> component binary w h p0" by (auto simp: fill_inv_def)
    have "darkPixel binary w h p0" using s by (simp add: fill_start_def)
    then have "darkPixel binary w h r" using rc by (rule component_dark)
    from component_step [OF rc this d r(2)] show ?thesis .
  qed
qed

lemma fill_inv_skip:
  assumes s: "fill_start binary w h V0 p0"
    and i: "fill_inv binary w h V0 p0 visited allPoints boundaryPoints (p # stack)"
    and c: "outOfBounds w h p \<or> array_get visited (pixelIndex w p)
              \<or> \<not> array_get binary (pixelIndex w p)"
  shows "fill_inv binary w h V0 p0 visited allPoints boundaryPoints stack"
proof -
  have seen: "p \<in> set allPoints" if d: "darkPixel binary w h p"
  proof -
    from d c have v: "array_get visited (pixelIndex w p)" by (auto simp: darkPixel_def)
    from fill_inv_head [OF s i d] have "p \<in> component binary w h p0" .
    from fill_inv_member [OF s i this v] show ?thesis .
  qed
  have a: "\<forall>s \<in> set stack. s = p0 \<or> (\<exists>r \<in> set allPoints. s \<in> set (neighbours8 r))"
    using i by (simp add: fill_inv_def)
  have b: "\<forall>r \<in> set allPoints. \<forall>q \<in> set (neighbours8 r).
             darkPixel binary w h q \<longrightarrow> q \<in> set allPoints \<or> q \<in> set stack"
  proof (intro ballI impI)
    fix r q assume "r \<in> set allPoints" "q \<in> set (neighbours8 r)" "darkPixel binary w h q"
    with i have "q \<in> set allPoints \<or> q \<in> set (p # stack)" by (simp add: fill_inv_def)
    with seen \<open>darkPixel binary w h q\<close> show "q \<in> set allPoints \<or> q \<in> set stack" by auto
  qed
  have e: "p0 \<in> set allPoints \<or> p0 \<in> set stack"
  proof -
    from i have "p0 \<in> set allPoints \<or> p0 \<in> set (p # stack)" by (simp add: fill_inv_def)
    moreover have "darkPixel binary w h p0" using s by (simp add: fill_start_def)
    ultimately show ?thesis using seen by auto
  qed
  from i a b e show ?thesis by (simp add: fill_inv_def)
qed

lemma fill_inv_take:
  assumes s: "fill_start binary w h V0 p0"
    and i: "fill_inv binary w h V0 p0 visited allPoints boundaryPoints (p # stack)"
    and c: "\<not> (outOfBounds w h p \<or> array_get visited (pixelIndex w p)
              \<or> \<not> array_get binary (pixelIndex w p))"
  shows "fill_inv binary w h V0 p0 (array_set visited (pixelIndex w p) True) (allPoints @ [p])
           (if isBoundary binary w h p then boundaryPoints @ [p] else boundaryPoints)
           (rev (neighbours8 p) @ stack)"
proof -
  from c have inb: "\<not> outOfBounds w h p" and nv: "\<not> array_get visited (pixelIndex w p)"
    and d: "darkPixel binary w h p" by (auto simp: darkPixel_def)
  have pc: "p \<in> component binary w h p0" using s i d by (rule fill_inv_head)
  have fresh: "p \<notin> set allPoints"
    using i inb nv by (auto simp: fill_inv_def)
  have 1: "distinct (allPoints @ [p])" using i fresh by (simp add: fill_inv_def)
  have 2: "set (allPoints @ [p]) \<subseteq> component binary w h p0" using i pc by (simp add: fill_inv_def)
  have 3: "\<forall>q. \<not> outOfBounds w h q \<longrightarrow>
             array_get (array_set visited (pixelIndex w p) True) (pixelIndex w q)
               = (array_get V0 (pixelIndex w q) \<or> q \<in> set (allPoints @ [p]))"
  proof (intro allI impI)
    fix q assume q: "\<not> outOfBounds w h q"
    with i have "array_get visited (pixelIndex w q)
               = (array_get V0 (pixelIndex w q) \<or> q \<in> set allPoints)" by (simp add: fill_inv_def)
    with visited_mark [OF inb q, of visited]
    show "array_get (array_set visited (pixelIndex w p) True) (pixelIndex w q)
               = (array_get V0 (pixelIndex w q) \<or> q \<in> set (allPoints @ [p]))" by auto
  qed
  have 4: "\<forall>s \<in> set (rev (neighbours8 p) @ stack).
             s = p0 \<or> (\<exists>r \<in> set (allPoints @ [p]). s \<in> set (neighbours8 r))"
  proof
    fix t assume "t \<in> set (rev (neighbours8 p) @ stack)"
    then have "t \<in> set (neighbours8 p) \<or> t \<in> set stack" by auto
    then show "t = p0 \<or> (\<exists>r \<in> set (allPoints @ [p]). t \<in> set (neighbours8 r))"
    proof
      assume "t \<in> set (neighbours8 p)"
      then show ?thesis by auto
    next
      assume "t \<in> set stack"
      with i have "t = p0 \<or> (\<exists>r \<in> set allPoints. t \<in> set (neighbours8 r))"
        by (simp add: fill_inv_def)
      then show ?thesis by auto
    qed
  qed
  have 5: "\<forall>r \<in> set (allPoints @ [p]). \<forall>q \<in> set (neighbours8 r).
             darkPixel binary w h q \<longrightarrow>
               q \<in> set (allPoints @ [p]) \<or> q \<in> set (rev (neighbours8 p) @ stack)"
  proof (intro ballI impI)
    fix r q assume r: "r \<in> set (allPoints @ [p])" and q: "q \<in> set (neighbours8 r)"
      and dq: "darkPixel binary w h q"
    show "q \<in> set (allPoints @ [p]) \<or> q \<in> set (rev (neighbours8 p) @ stack)"
    proof (cases "r = p")
      case True
      with q show ?thesis by simp
    next
      case False
      with r have "r \<in> set allPoints" by simp
      with i q dq have "q \<in> set allPoints \<or> q \<in> set (p # stack)" by (simp add: fill_inv_def)
      then show ?thesis by auto
    qed
  qed
  have 6: "p0 \<in> set (allPoints @ [p]) \<or> p0 \<in> set (rev (neighbours8 p) @ stack)"
  proof -
    from i have "p0 \<in> set allPoints \<or> p0 \<in> set (p # stack)" by (simp add: fill_inv_def)
    then show ?thesis by auto
  qed
  have 7: "(if isBoundary binary w h p then boundaryPoints @ [p] else boundaryPoints)
             = filter (isBoundary binary w h) (allPoints @ [p])"
    using i by (simp add: fill_inv_def)
  from 1 2 3 4 5 6 7 show ?thesis unfolding fill_inv_def by (intro conjI)
qed

lemma floodFill_loop_fill_inv:
  assumes "fill_start binary w h V0 p0"
    and "fill_inv binary w h V0 p0 visited allPoints boundaryPoints stack"
    and "floodFill_loop binary w h visited allPoints boundaryPoints stack
           = (visited', allPoints', boundaryPoints')"
  shows "fill_inv binary w h V0 p0 visited' allPoints' boundaryPoints' []"
  using assms
proof (induction binary w h visited allPoints boundaryPoints stack rule: floodFill_loop.induct)
  case (1 binary w h visited allPoints boundaryPoints)
  then show ?case by (simp add: floodFill_loop.simps)
next
  case (2 binary w h visited allPoints boundaryPoints p stack)
  show ?case
  proof (cases "outOfBounds w h p \<or> array_get visited (pixelIndex w p)
                  \<or> \<not> array_get binary (pixelIndex w p)")
    case True
    from fill_inv_skip [OF "2.prems"(1,2) True]
    have i: "fill_inv binary w h V0 p0 visited allPoints boundaryPoints stack" .
    from "2.prems"(3) True
    have "floodFill_loop binary w h visited allPoints boundaryPoints stack
             = (visited', allPoints', boundaryPoints')" by (simp add: floodFill_loop.simps)
    from "2.IH"(1) [OF True "2.prems"(1) i this] show ?thesis .
  next
    case False
    from fill_inv_take [OF "2.prems"(1,2) False]
    have i: "fill_inv binary w h V0 p0 (array_set visited (pixelIndex w p) True) (allPoints @ [p])
           (if isBoundary binary w h p then boundaryPoints @ [p] else boundaryPoints)
           (rev (neighbours8 p) @ stack)" .
    from "2.prems"(3) False
    have "floodFill_loop binary w h (array_set visited (pixelIndex w p) True) (allPoints @ [p])
             (if isBoundary binary w h p then boundaryPoints @ [p] else boundaryPoints)
             (rev (neighbours8 p) @ stack)
           = (visited', allPoints', boundaryPoints')" by (simp add: floodFill_loop.simps)
    from "2.IH"(2) [OF False "2.prems"(1) i this] show ?thesis .
  qed
qed

lemma fill_inv_final:
  assumes s: "fill_start binary w h V0 p0"
    and i: "fill_inv binary w h V0 p0 visited allPoints boundaryPoints []"
  shows "set allPoints = component binary w h p0"
proof -
  have "q \<in> set allPoints" if "(p0, q) \<in> (linked binary w h)\<^sup>*" for q
    using that
  proof (induction rule: rtrancl_induct)
    case base
    from i show ?case by (simp add: fill_inv_def)
  next
    case (step r q)
    from step.hyps(2) have "darkPixel binary w h q" "q \<in> set (neighbours8 r)"
      by (simp_all add: linked_def)
    with i step.IH show ?case by (simp add: fill_inv_def)
  qed
  then have "component binary w h p0 \<subseteq> set allPoints" by (auto simp: component_def)
  moreover from i have "set allPoints \<subseteq> component binary w h p0" by (simp add: fill_inv_def)
  ultimately show ?thesis by blast
qed

text \<open>
  The flood fill from a dark pixel whose component has no marked pixel: \<open>allPoints\<close> are the
  pixels of the component, \<open>boundaryPoints\<close> its boundary pixels, each once, and the pixels
  of the component are the ones newly marked.
\<close>

lemma floodFill_loop_component:
  assumes s: "fill_start binary w h V0 p0"
    and r: "floodFill_loop binary w h V0 [] [] [p0] = (visited', allPoints, boundaryPoints)"
  shows "distinct allPoints \<and> set allPoints = component binary w h p0
       \<and> distinct boundaryPoints
       \<and> set boundaryPoints = boundaryPixels binary w h (component binary w h p0)
       \<and> boundaryPoints \<noteq> []
       \<and> (\<forall>q. \<not> outOfBounds w h q \<longrightarrow>
             array_get visited' (pixelIndex w q)
               = (array_get V0 (pixelIndex w q) \<or> q \<in> component binary w h p0))"
proof -
  have "fill_inv binary w h V0 p0 V0 [] [] [p0]" by (simp add: fill_inv_def)
  from floodFill_loop_fill_inv [OF s this r]
  have i: "fill_inv binary w h V0 p0 visited' allPoints boundaryPoints []" .
  from fill_inv_final [OF s i] have a: "set allPoints = component binary w h p0" .
  from i have d: "distinct allPoints" and b: "boundaryPoints = filter (isBoundary binary w h) allPoints"
    by (simp_all add: fill_inv_def)
  have sb: "set boundaryPoints = boundaryPixels binary w h (component binary w h p0)"
    using a b by (auto simp: boundaryPixels_def)
  from s have "darkPixel binary w h p0" by (simp add: fill_start_def)
  from component_has_boundary [OF this] sb have ne: "boundaryPoints \<noteq> []"
    by (auto simp: boundaryPixels_def)
  from i a have v: "\<forall>q. \<not> outOfBounds w h q \<longrightarrow>
             array_get visited' (pixelIndex w q)
               = (array_get V0 (pixelIndex w q) \<or> q \<in> component binary w h p0)"
    by (simp add: fill_inv_def)
  from d a b sb ne v show ?thesis by simp
qed

section \<open>The scan emits the components with more than 10 boundary pixels\<close>

lemma finite_in_bounds: "finite {p. \<not> outOfBounds w h p}"
proof -
  have "{p. \<not> outOfBounds w h p} \<subseteq> (\<lambda>(a, b). \<lparr>px = a, py = b\<rparr>) ` ({0 ..< w} \<times> {0 ..< h})"
  proof
    fix p assume "p \<in> {p. \<not> outOfBounds w h p}"
    then have "(px p, py p) \<in> {0 ..< w} \<times> {0 ..< h}" by (auto simp: outOfBounds_def)
    moreover have "p = (\<lambda>(a, b). \<lparr>px = a, py = b\<rparr>) (px p, py p)" by simp
    ultimately show "p \<in> (\<lambda>(a, b). \<lparr>px = a, py = b\<rparr>) ` ({0 ..< w} \<times> {0 ..< h})"
      by (rule image_eqI [rotated])
  qed
  then show ?thesis by (rule finite_subset) simp
qed

lemma finite_component:
  assumes "darkPixel binary w h p"
  shows "finite (component binary w h p)"
proof -
  have "component binary w h p \<subseteq> {q. \<not> outOfBounds w h q}"
    using component_dark [OF assms] by (auto simp: darkPixel_def)
  then show ?thesis using finite_in_bounds by (rule finite_subset)
qed

text \<open>
  The state of the scan when the pixels in \<open>S\<close> have been looked at: the marked pixels are
  dark and form whole components, the dark pixels of \<open>S\<close> are marked, and the contours are
  the boundaries, each once, of the marked components with more than 10 boundary pixels.
\<close>

definition scan_inv ::
  "bool list \<Rightarrow> int \<Rightarrow> int \<Rightarrow> point set \<Rightarrow> bool list \<Rightarrow> point list list \<Rightarrow> bool" where
  "scan_inv binary w h S visited contours =
     ((\<forall>q. \<not> outOfBounds w h q \<and> array_get visited (pixelIndex w q) \<longrightarrow>
           darkPixel binary w h q
         \<and> (\<forall>r \<in> component binary w h q. array_get visited (pixelIndex w r)))
      \<and> (\<forall>p \<in> S. darkPixel binary w h p \<longrightarrow> array_get visited (pixelIndex w p))
      \<and> (\<forall>c \<in> set contours. \<exists>p. darkPixel binary w h p \<and> array_get visited (pixelIndex w p)
             \<and> set c = boundaryPixels binary w h (component binary w h p)
             \<and> distinct c \<and> 10 < length c)
      \<and> (\<forall>p. darkPixel binary w h p \<and> array_get visited (pixelIndex w p)
               \<and> 10 < card (boundaryPixels binary w h (component binary w h p)) \<longrightarrow>
             (\<exists>c \<in> set contours. set c = boundaryPixels binary w h (component binary w h p)))
      \<and> distinct (map set contours))"

lemma scan_inv_closed:
  assumes "scan_inv binary w h S visited contours"
    and "\<not> outOfBounds w h q" and "array_get visited (pixelIndex w q)"
  shows "darkPixel binary w h q" and "\<forall>r \<in> component binary w h q. array_get visited (pixelIndex w r)"
  using assms unfolding scan_inv_def by blast+

lemma scan_inv_seen:
  assumes "scan_inv binary w h S visited contours" and "p \<in> S" and "darkPixel binary w h p"
  shows "array_get visited (pixelIndex w p)"
  using assms unfolding scan_inv_def by blast

definition contour_of ::
  "bool list \<Rightarrow> int \<Rightarrow> int \<Rightarrow> bool list \<Rightarrow> point list \<Rightarrow> bool" where
  "contour_of binary w h visited c =
     (\<exists>p. darkPixel binary w h p \<and> array_get visited (pixelIndex w p)
        \<and> set c = boundaryPixels binary w h (component binary w h p)
        \<and> distinct c \<and> 10 < length c)"

lemma scan_inv_contour:
  assumes "scan_inv binary w h S visited contours" and "c \<in> set contours"
  shows "contour_of binary w h visited c"
  using assms unfolding scan_inv_def contour_of_def by blast

lemma scan_inv_emitted:
  assumes "scan_inv binary w h S visited contours"
    and "darkPixel binary w h p" and "array_get visited (pixelIndex w p)"
    and "10 < card (boundaryPixels binary w h (component binary w h p))"
  shows "\<exists>c \<in> set contours. set c = boundaryPixels binary w h (component binary w h p)"
  using assms unfolding scan_inv_def by blast

lemma scan_inv_distinct:
  assumes "scan_inv binary w h S visited contours"
  shows "distinct (map set contours)"
  using assms unfolding scan_inv_def by blast

lemma scan_invI:
  assumes "\<And>q. \<not> outOfBounds w h q \<Longrightarrow> array_get visited (pixelIndex w q) \<Longrightarrow>
             darkPixel binary w h q"
    and "\<And>q r. \<not> outOfBounds w h q \<Longrightarrow> array_get visited (pixelIndex w q) \<Longrightarrow>
             r \<in> component binary w h q \<Longrightarrow> array_get visited (pixelIndex w r)"
    and "\<And>p. p \<in> S \<Longrightarrow> darkPixel binary w h p \<Longrightarrow> array_get visited (pixelIndex w p)"
    and "\<And>c. c \<in> set contours \<Longrightarrow> contour_of binary w h visited c"
    and "\<And>p. darkPixel binary w h p \<Longrightarrow> array_get visited (pixelIndex w p) \<Longrightarrow>
             10 < card (boundaryPixels binary w h (component binary w h p)) \<Longrightarrow>
             \<exists>c \<in> set contours. set c = boundaryPixels binary w h (component binary w h p)"
    and "distinct (map set contours)"
  shows "scan_inv binary w h S visited contours"
  unfolding scan_inv_def
proof (intro conjI)
  show "\<forall>q. \<not> outOfBounds w h q \<and> array_get visited (pixelIndex w q) \<longrightarrow>
           darkPixel binary w h q
         \<and> (\<forall>r \<in> component binary w h q. array_get visited (pixelIndex w r))"
    using assms(1,2) by blast
  show "\<forall>p \<in> S. darkPixel binary w h p \<longrightarrow> array_get visited (pixelIndex w p)"
    using assms(3) by blast
  show "\<forall>c \<in> set contours. \<exists>p. darkPixel binary w h p \<and> array_get visited (pixelIndex w p)
             \<and> set c = boundaryPixels binary w h (component binary w h p)
             \<and> distinct c \<and> 10 < length c"
    using assms(4) unfolding contour_of_def by blast
  show "\<forall>p. darkPixel binary w h p \<and> array_get visited (pixelIndex w p)
               \<and> 10 < card (boundaryPixels binary w h (component binary w h p)) \<longrightarrow>
             (\<exists>c \<in> set contours. set c = boundaryPixels binary w h (component binary w h p))"
    using assms(5) by blast
  show "distinct (map set contours)" by (rule assms(6))
qed

lemma scan_inv_mono:
  assumes inv: "scan_inv binary w h S visited contours"
    and p: "darkPixel binary w h p \<longrightarrow> array_get visited (pixelIndex w p)"
  shows "scan_inv binary w h (insert p S) visited contours"
proof (rule scan_invI)
  fix q assume "q \<in> insert p S" "darkPixel binary w h q"
  then show "array_get visited (pixelIndex w q)"
    using p scan_inv_seen [OF inv] by blast
next
  fix q assume "\<not> outOfBounds w h q" "array_get visited (pixelIndex w q)"
  with inv show "darkPixel binary w h q" by (rule scan_inv_closed(1))
next
  fix q r assume "\<not> outOfBounds w h q" "array_get visited (pixelIndex w q)"
    "r \<in> component binary w h q"
  with scan_inv_closed(2) [OF inv] show "array_get visited (pixelIndex w r)" by blast
next
  fix c assume "c \<in> set contours"
  with inv show "contour_of binary w h visited c" by (rule scan_inv_contour)
next
  fix q assume "darkPixel binary w h q" "array_get visited (pixelIndex w q)"
    "10 < card (boundaryPixels binary w h (component binary w h q))"
  with inv show "\<exists>c \<in> set contours. set c = boundaryPixels binary w h (component binary w h q)"
    by (rule scan_inv_emitted)
next
  show "distinct (map set contours)" using inv by (rule scan_inv_distinct)
qed

lemma scan_inv_fill:
  assumes inv: "scan_inv binary w h S visited contours"
    and d: "darkPixel binary w h p" and nv: "\<not> array_get visited (pixelIndex w p)"
    and run: "floodFill_loop binary w h visited [] [] [p] = (visited', allPoints, boundaryPoints)"
  shows "floodFill binary visited (px p) (py p) w h
           = (visited', orderBoundaryPoints boundaryPoints allPoints)
       \<and> scan_inv binary w h (insert p S) visited'
           (if 10 < length (orderBoundaryPoints boundaryPoints allPoints)
            then contours @ [orderBoundaryPoints boundaryPoints allPoints] else contours)"
proof -
  let ?C = "component binary w h p"
  let ?B = "boundaryPixels binary w h ?C"
  let ?c = "orderBoundaryPoints boundaryPoints allPoints"
  let ?cs = "if 10 < length ?c then contours @ [?c] else contours"
  have in_bounds: "\<not> outOfBounds w h q" if "darkPixel binary w h q" for q
    using that by (simp add: darkPixel_def)
  have unmarked: "\<not> array_get visited (pixelIndex w q)" if q: "q \<in> ?C" for q
  proof
    assume v: "array_get visited (pixelIndex w q)"
    have "darkPixel binary w h q" using d q by (rule component_dark)
    then have "\<not> outOfBounds w h q" by (rule in_bounds)
    from scan_inv_closed(2) [OF inv this v]
    have "\<forall>r \<in> component binary w h q. array_get visited (pixelIndex w r)" .
    moreover have "p \<in> component binary w h q" using q by (rule component_sym)
    ultimately have "array_get visited (pixelIndex w p)" by (rule bspec)
    with nv show False by simp
  qed
  then have "\<forall>q \<in> ?C. \<not> array_get visited (pixelIndex w q)" by blast
  with d have start: "fill_start binary w h visited p" by (simp add: fill_start_def)
  note fc = floodFill_loop_component [OF start run]
  have da: "distinct allPoints" using fc by (rule conjunct1)
  have sa: "set allPoints = ?C" using fc by (elim conjE)
  have db: "distinct boundaryPoints" using fc by (elim conjE)
  have sb: "set boundaryPoints = ?B" using fc by (elim conjE)
  have ne: "boundaryPoints \<noteq> []" using fc by (elim conjE)
  have vis: "\<forall>q. \<not> outOfBounds w h q \<longrightarrow>
             array_get visited' (pixelIndex w q) = (array_get visited (pixelIndex w q) \<or> q \<in> ?C)"
    using fc by (elim conjE)
  have m: "mset ?c = mset boundaryPoints" using ne db by (rule mset_orderBoundaryPoints)
  have "set ?c = set boundaryPoints" using m by (rule mset_eq_setD)
  with sb have sc: "set ?c = ?B" by simp
  have "distinct ?c = distinct boundaryPoints" using m by (rule mset_eq_imp_distinct_iff)
  with db have dc: "distinct ?c" by simp
  have "card (set ?c) = length ?c" using dc by (rule distinct_card)
  with sc have lc: "length ?c = card ?B" by simp
  have p_eq: "\<lparr>px = px p, py = py p\<rparr> = p" by simp
  have ff: "floodFill binary visited (px p) (py p) w h = (visited', ?c)"
    using run ne by (simp add: floodFill_def p_eq)
  have vis_eq: "array_get visited' (pixelIndex w q) = (array_get visited (pixelIndex w q) \<or> q \<in> ?C)"
    if "\<not> outOfBounds w h q" for q
    using vis that by blast
  have keep: "array_get visited' (pixelIndex w q)"
    if "\<not> outOfBounds w h q" "array_get visited (pixelIndex w q)" for q
    using vis_eq [OF that(1)] that(2) by simp
  have new: "array_get visited' (pixelIndex w q)" if q: "q \<in> ?C" for q
  proof -
    have "darkPixel binary w h q" using d q by (rule component_dark)
    then have "\<not> outOfBounds w h q" by (rule in_bounds)
    from vis_eq [OF this] q show ?thesis by simp
  qed
  have old_or_new: "array_get visited (pixelIndex w q) \<or> q \<in> ?C"
    if "\<not> outOfBounds w h q" "array_get visited' (pixelIndex w q)" for q
    using vis_eq [OF that(1)] that(2) by simp
  have pc: "p \<in> ?C" by (rule component_refl)
  have cnew: "contour_of binary w h visited' ?c" if "10 < length ?c"
    unfolding contour_of_def
  proof (rule exI [of _ p], intro conjI)
    show "darkPixel binary w h p" by (rule d)
    show "array_get visited' (pixelIndex w p)" using pc by (rule new)
    show "set ?c = ?B" by (rule sc)
    show "distinct ?c" by (rule dc)
    show "10 < length ?c" by (rule that)
  qed
  have cold: "contour_of binary w h visited' c" if c: "c \<in> set contours" for c
  proof -
    from scan_inv_contour [OF inv c] obtain q where q: "darkPixel binary w h q"
      "array_get visited (pixelIndex w q)"
      "set c = boundaryPixels binary w h (component binary w h q)" "distinct c" "10 < length c"
      unfolding contour_of_def by blast
    have "array_get visited' (pixelIndex w q)" using in_bounds [OF q(1)] q(2) by (rule keep)
    with q(1,3,4,5) show ?thesis unfolding contour_of_def by blast
  qed
  have fresh: "set ?c \<notin> set (map set contours)"
  proof
    assume "set ?c \<in> set (map set contours)"
    then obtain c where c: "c \<in> set contours" "set c = set ?c" by auto
    from scan_inv_contour [OF inv c(1)] obtain q where q: "darkPixel binary w h q"
      "array_get visited (pixelIndex w q)"
      "set c = boundaryPixels binary w h (component binary w h q)"
      unfolding contour_of_def by blast
    from ne obtain b where "b \<in> set boundaryPoints" by (cases boundaryPoints) auto
    with sb have b: "b \<in> ?B" by simp
    then have bc: "b \<in> ?C" by (simp add: boundaryPixels_def)
    from c(2) q(3) have "set ?c = boundaryPixels binary w h (component binary w h q)" by simp
    with sc have "?B = boundaryPixels binary w h (component binary w h q)" by simp
    with b have "b \<in> boundaryPixels binary w h (component binary w h q)" by simp
    then have "b \<in> component binary w h q" by (simp add: boundaryPixels_def)
    moreover from scan_inv_closed(2) [OF inv in_bounds [OF q(1)] q(2)]
    have "\<forall>r \<in> component binary w h q. array_get visited (pixelIndex w r)" .
    ultimately have "array_get visited (pixelIndex w b)" by blast
    with unmarked [OF bc] show False by simp
  qed
  have "scan_inv binary w h (insert p S) visited' ?cs"
  proof (rule scan_invI)
    fix q assume q: "\<not> outOfBounds w h q" "array_get visited' (pixelIndex w q)"
    from old_or_new [OF q] show "darkPixel binary w h q"
    proof
      assume "array_get visited (pixelIndex w q)"
      with inv q(1) show ?thesis by (rule scan_inv_closed(1))
    next
      assume "q \<in> ?C"
      with d show ?thesis by (rule component_dark)
    qed
  next
    fix q r assume q: "\<not> outOfBounds w h q" "array_get visited' (pixelIndex w q)"
      and r: "r \<in> component binary w h q"
    from old_or_new [OF q] show "array_get visited' (pixelIndex w r)"
    proof
      assume v: "array_get visited (pixelIndex w q)"
      from scan_inv_closed [OF inv q(1) v]
      have dq: "darkPixel binary w h q"
        and cl: "\<forall>r \<in> component binary w h q. array_get visited (pixelIndex w r)" .
      have "darkPixel binary w h r" using dq r by (rule component_dark)
      then have "\<not> outOfBounds w h r" by (rule in_bounds)
      moreover have "array_get visited (pixelIndex w r)" using cl r by (rule bspec)
      ultimately show ?thesis by (rule keep)
    next
      assume "q \<in> ?C"
      then have "component binary w h q = ?C" by (rule component_eq)
      with r have "r \<in> ?C" by simp
      then show ?thesis by (rule new)
    qed
  next
    fix q assume q: "q \<in> insert p S" "darkPixel binary w h q"
    show "array_get visited' (pixelIndex w q)"
    proof (cases "q = p")
      case True
      with new [OF pc] show ?thesis by simp
    next
      case False
      with q(1) have "q \<in> S" by simp
      with inv have "array_get visited (pixelIndex w q)" using q(2) by (rule scan_inv_seen)
      with in_bounds [OF q(2)] show ?thesis by (rule keep)
    qed
  next
    fix c assume "c \<in> set ?cs"
    then have "c \<in> set contours \<or> (10 < length ?c \<and> c = ?c)" by (auto split: if_splits)
    then show "contour_of binary w h visited' c"
    proof
      assume "c \<in> set contours"
      then show ?thesis by (rule cold)
    next
      assume "10 < length ?c \<and> c = ?c"
      with cnew show ?thesis by simp
    qed
  next
    fix q assume q: "darkPixel binary w h q" "array_get visited' (pixelIndex w q)"
      "10 < card (boundaryPixels binary w h (component binary w h q))"
    from old_or_new [OF in_bounds [OF q(1)] q(2)]
    show "\<exists>c \<in> set ?cs. set c = boundaryPixels binary w h (component binary w h q)"
    proof
      assume "array_get visited (pixelIndex w q)"
      from scan_inv_emitted [OF inv q(1) this q(3)] obtain c where
        "c \<in> set contours" "set c = boundaryPixels binary w h (component binary w h q)" by blast
      moreover from this(1) have "c \<in> set ?cs" by simp
      ultimately show ?thesis by blast
    next
      assume "q \<in> ?C"
      then have e: "component binary w h q = ?C" by (rule component_eq)
      with q(3) lc have "10 < length ?c" by simp
      then have "?c \<in> set ?cs" by simp
      moreover have "set ?c = boundaryPixels binary w h (component binary w h q)"
        using sc e by simp
      ultimately show ?thesis by blast
    qed
  next
    show "distinct (map set ?cs)" using scan_inv_distinct [OF inv] fresh by simp
  qed
  with ff show ?thesis by simp
qed

lemma scanPixel_scan_inv:
  assumes inv: "scan_inv binary w h S visited contours"
    and inb: "\<not> outOfBounds w h \<lparr>px = x, py = y\<rparr>"
  shows "\<exists>visited' contours'. scanPixel binary w h y x (visited, contours) = (visited', contours')
           \<and> scan_inv binary w h (insert \<lparr>px = x, py = y\<rparr> S) visited' contours'"
proof -
  let ?p = "\<lparr>px = x, py = y\<rparr>"
  have idx: "nat (y * w + x) = pixelIndex w ?p" by (simp add: pixelIndex_def)
  show ?thesis
  proof (cases "array_get binary (pixelIndex w ?p) \<and> \<not> array_get visited (pixelIndex w ?p)")
    case True
    then have d: "darkPixel binary w h ?p" and nv: "\<not> array_get visited (pixelIndex w ?p)"
      using inb by (simp_all add: darkPixel_def)
    obtain visited' allPoints boundaryPoints where
      run: "floodFill_loop binary w h visited [] [] [?p] = (visited', allPoints, boundaryPoints)"
      by (cases "floodFill_loop binary w h visited [] [] [?p]")
    from scan_inv_fill [OF inv d nv run]
    have ff: "floodFill binary visited x y w h = (visited', orderBoundaryPoints boundaryPoints allPoints)"
      and i: "scan_inv binary w h (insert ?p S) visited'
           (if 10 < length (orderBoundaryPoints boundaryPoints allPoints)
            then contours @ [orderBoundaryPoints boundaryPoints allPoints] else contours)"
      by simp_all
    have "scanPixel binary w h y x (visited, contours)
            = (visited', if 10 < length (orderBoundaryPoints boundaryPoints allPoints)
                 then contours @ [orderBoundaryPoints boundaryPoints allPoints] else contours)"
      using True by (simp add: scanPixel_def Let_def idx ff)
    with i show ?thesis by blast
  next
    case False
    then have "scanPixel binary w h y x (visited, contours) = (visited, contours)"
      by (auto simp: scanPixel_def Let_def idx)
    moreover have "darkPixel binary w h ?p \<longrightarrow> array_get visited (pixelIndex w ?p)"
      using False by (auto simp: darkPixel_def)
    from scan_inv_mono [OF inv this]
    have "scan_inv binary w h (insert ?p S) visited contours" .
    ultimately show ?thesis by blast
  qed
qed

lemma scanRow_scan_inv:
  assumes "scan_inv binary w h S visited contours"
    and "\<forall>x \<in> set xs. \<not> outOfBounds w h \<lparr>px = x, py = y\<rparr>"
  shows "\<exists>visited' contours'.
           fold (scanPixel binary w h y) xs (visited, contours) = (visited', contours')
         \<and> scan_inv binary w h (S \<union> (\<lambda>x. \<lparr>px = x, py = y\<rparr>) ` set xs) visited' contours'"
  using assms
proof (induction xs arbitrary: S visited contours)
  case Nil
  then show ?case by simp
next
  case (Cons x xs)
  have "\<not> outOfBounds w h \<lparr>px = x, py = y\<rparr>" using Cons.prems(2) by simp
  from scanPixel_scan_inv [OF Cons.prems(1) this] obtain v1 c1 where
    s: "scanPixel binary w h y x (visited, contours) = (v1, c1)"
    and i: "scan_inv binary w h (insert \<lparr>px = x, py = y\<rparr> S) v1 c1" by blast
  have "\<forall>x \<in> set xs. \<not> outOfBounds w h \<lparr>px = x, py = y\<rparr>" using Cons.prems(2) by simp
  from Cons.IH [OF i this] obtain v2 c2 where
    f: "fold (scanPixel binary w h y) xs (v1, c1) = (v2, c2)"
    and i2: "scan_inv binary w h (insert \<lparr>px = x, py = y\<rparr> S \<union> (\<lambda>x. \<lparr>px = x, py = y\<rparr>) ` set xs) v2 c2"
    by blast
  have "insert \<lparr>px = x, py = y\<rparr> S \<union> (\<lambda>x. \<lparr>px = x, py = y\<rparr>) ` set xs
          = S \<union> (\<lambda>x. \<lparr>px = x, py = y\<rparr>) ` set (x # xs)" by auto
  with i2 have "scan_inv binary w h (S \<union> (\<lambda>x. \<lparr>px = x, py = y\<rparr>) ` set (x # xs)) v2 c2"
    by simp
  with s f show ?case by simp
qed

lemma scanRows_scan_inv:
  assumes "scan_inv binary w h S visited contours"
    and "\<forall>y \<in> set ys. \<forall>x \<in> set xs. \<not> outOfBounds w h \<lparr>px = x, py = y\<rparr>"
  shows "\<exists>visited' contours'.
           fold (\<lambda>y. fold (scanPixel binary w h y) xs) ys (visited, contours) = (visited', contours')
         \<and> scan_inv binary w h (S \<union> (\<lambda>(x, y). \<lparr>px = x, py = y\<rparr>) ` (set xs \<times> set ys))
               visited' contours'"
  using assms
proof (induction ys arbitrary: S visited contours)
  case Nil
  then show ?case by simp
next
  case (Cons y ys)
  have "\<forall>x \<in> set xs. \<not> outOfBounds w h \<lparr>px = x, py = y\<rparr>" using Cons.prems(2) by simp
  from scanRow_scan_inv [OF Cons.prems(1) this] obtain v1 c1 where
    s: "fold (scanPixel binary w h y) xs (visited, contours) = (v1, c1)"
    and i: "scan_inv binary w h (S \<union> (\<lambda>x. \<lparr>px = x, py = y\<rparr>) ` set xs) v1 c1" by blast
  have "\<forall>y \<in> set ys. \<forall>x \<in> set xs. \<not> outOfBounds w h \<lparr>px = x, py = y\<rparr>"
    using Cons.prems(2) by simp
  from Cons.IH [OF i this] obtain v2 c2 where
    f: "fold (\<lambda>y. fold (scanPixel binary w h y) xs) ys (v1, c1) = (v2, c2)"
    and i2: "scan_inv binary w h
               (S \<union> (\<lambda>x. \<lparr>px = x, py = y\<rparr>) ` set xs
                  \<union> (\<lambda>(x, y). \<lparr>px = x, py = y\<rparr>) ` (set xs \<times> set ys)) v2 c2"
    by blast
  have "S \<union> (\<lambda>x. \<lparr>px = x, py = y\<rparr>) ` set xs \<union> (\<lambda>(x, y). \<lparr>px = x, py = y\<rparr>) ` (set xs \<times> set ys)
          = S \<union> (\<lambda>(x, y). \<lparr>px = x, py = y\<rparr>) ` (set xs \<times> set (y # ys))" by auto
  with i2 have "scan_inv binary w h (S \<union> (\<lambda>(x, y). \<lparr>px = x, py = y\<rparr>) ` (set xs \<times> set (y # ys))) v2 c2"
    by simp
  with s f show ?case by simp
qed

lemma findContours_scan_inv:
  "\<exists>visited. scan_inv binary w h {p. \<not> outOfBounds w h p} visited (findContours binary w h)"
proof -
  let ?v0 = "replicate (nat (w * h)) False"
  have v0: "\<not> array_get ?v0 i" for i by (simp add: array_get_def)
  have i0: "scan_inv binary w h {} ?v0 []" by (simp add: scan_inv_def v0)
  have inb: "\<forall>y \<in> set [0 .. h - 1]. \<forall>x \<in> set [0 .. w - 1]. \<not> outOfBounds w h \<lparr>px = x, py = y\<rparr>"
    by (auto simp: outOfBounds_def)
  from scanRows_scan_inv [OF i0 inb] obtain v c where
    f: "fold (\<lambda>y. fold (scanPixel binary w h y) [0 .. w - 1]) [0 .. h - 1] (?v0, []) = (v, c)"
    and i: "scan_inv binary w h
              ({} \<union> (\<lambda>(x, y). \<lparr>px = x, py = y\<rparr>) ` (set [0 .. w - 1] \<times> set [0 .. h - 1])) v c"
    by blast
  have "{} \<union> (\<lambda>(x, y). \<lparr>px = x, py = y\<rparr>) ` (set [0 .. w - 1] \<times> set [0 .. h - 1])
          = {p. \<not> outOfBounds w h p}"
  proof (intro set_eqI iffI)
    fix p assume "p \<in> {} \<union> (\<lambda>(x, y). \<lparr>px = x, py = y\<rparr>) ` (set [0 .. w - 1] \<times> set [0 .. h - 1])"
    then show "p \<in> {p. \<not> outOfBounds w h p}" by (auto simp: outOfBounds_def)
  next
    fix p assume "p \<in> {p. \<not> outOfBounds w h p}"
    then have "(px p, py p) \<in> set [0 .. w - 1] \<times> set [0 .. h - 1]" by (auto simp: outOfBounds_def)
    moreover have "p = (\<lambda>(x, y). \<lparr>px = x, py = y\<rparr>) (px p, py p)" by simp
    ultimately have "p \<in> (\<lambda>(x, y). \<lparr>px = x, py = y\<rparr>) ` (set [0 .. w - 1] \<times> set [0 .. h - 1])"
      by (rule image_eqI [rotated])
    then show "p \<in> {} \<union> (\<lambda>(x, y). \<lparr>px = x, py = y\<rparr>) ` (set [0 .. w - 1] \<times> set [0 .. h - 1])"
      by simp
  qed
  with i have "scan_inv binary w h {p. \<not> outOfBounds w h p} v c" by simp
  moreover have "findContours binary w h = c" by (simp add: findContours_def f)
  ultimately show ?thesis by blast
qed

section \<open>Properties of the pipeline\<close>

lemma detectLoop_total: "\<exists>r. detectLoop contours shps = Some r"
  by (induction contours arbitrary: shps)
     (auto simp: simplifyContour_simplifySq split: option.splits)

lemma detectLoop_origin:
  assumes "detectLoop contours shps = Some r" "s \<in> set r"
  shows "s \<in> set shps \<or>
         (\<exists>contour \<in> set contours. 3 \<le> length contour \<and> 3 \<le> length (simplifySq contour)
            \<and> classifyShape (simplifySq contour) contour = Some s)"
  using assms
proof (induction contours arbitrary: shps)
  case Nil
  then show ?case by simp
next
  case (Cons contour rest)
  show ?case
  proof (cases "length contour < 3 \<or> length (simplifySq contour) < 3
                 \<or> classifyShape (simplifySq contour) contour = None")
    case True
    with Cons.prems have "detectLoop rest shps = Some r"
      by (auto simp: simplifyContour_simplifySq split: if_splits)
    from Cons.IH [OF this Cons.prems(2)] show ?thesis by auto
  next
    case False
    then obtain shapeInfo where si: "classifyShape (simplifySq contour) contour = Some shapeInfo"
      by auto
    with False Cons.prems have "detectLoop rest (shps @ [shapeInfo]) = Some r"
      by (auto simp: simplifyContour_simplifySq)
    from Cons.IH [OF this Cons.prems(2)] si False show ?thesis by auto
  qed
qed

lemma detectShapes_total: "\<exists>res. detectShapes startTime endTime imageData = Some res"
  using detectLoop_total
  by (auto simp: detectShapes_def Let_def)

lemma detectShapes_origin:
  assumes "detectShapes startTime endTime imageData = Some res" "s \<in> set (shapes res)"
  shows "\<exists>contour. 3 \<le> length contour \<and> 3 \<le> length (simplifySq contour)
            \<and> classifyShape (simplifySq contour) contour = Some s"
proof -
  from assms(1) obtain shps where
    "detectLoop (findContours (createBinaryImage (img_data imageData) (img_width imageData) (img_height imageData))
        (img_width imageData) (img_height imageData)) [] = Some shps" "shapes res = shps"
    by (auto simp: detectShapes_def Let_def)
  with detectLoop_origin [OF this(1), of s] assms(2) show ?thesis by auto
qed

lemma detectShapes_fields:
  assumes "detectShapes startTime endTime imageData = Some res"
  shows "imageWidth res = img_width imageData \<and> imageHeight res = img_height imageData
       \<and> processingTime res = endTime - startTime"
  using assms by (auto simp: detectShapes_def Let_def)

lemma detectShapes_shapes:
  assumes "detectShapes startTime endTime imageData = Some res"
    and "detectShapes startTime' endTime' imageData = Some res'"
  shows "shapes res' = shapes res"
  using assms by (auto simp: detectShapes_def Let_def)

lemma classify_seven:
  assumes "length simplified = 7"
  shows "classify simplified circularity = Some (Pentagon, Fin 0.75)"
  using assms by (simp add: classify_def Let_def)

lemma classify_three:
  assumes "length simplified = 3"
  shows "classify simplified circularity = Some (Triangle, Fin 0.95)"
  using assms by (simp add: classify_def Let_def)

lemma detectShapes_contour:
  assumes "detectShapes startTime endTime imageData = Some res" "s \<in> set (shapes res)"
  shows "\<exists>contour \<in> set (findContours
             (createBinaryImage (img_data imageData) (img_width imageData) (img_height imageData))
             (img_width imageData) (img_height imageData)).
           classifyShape (simplifySq contour) contour = Some s"
proof -
  from assms(1) obtain shps where
    "detectLoop (findContours (createBinaryImage (img_data imageData) (img_width imageData) (img_height imageData))
        (img_width imageData) (img_height imageData)) [] = Some shps" "shapes res = shps"
    by (auto simp: detectShapes_def Let_def)
  with detectLoop_origin [OF this(1), of s] assms(2) show ?thesis by auto
qed

section \<open>The heap version computes the same result and leaves the old objects alone\<close>

lemma heap_bools_update:
  "visited < length hp \<Longrightarrow> heap_bools (hp[visited := BoolArray vs]) visited = vs"
  by (simp add: heap_bools_def)

lemma heap_bools_other:
  "r \<noteq> visited \<Longrightarrow> heap_bools (hp[visited := obj]) r = heap_bools hp r"
  by (simp add: heap_bools_def)

lemma heap_store_update:
  "visited < length hp \<Longrightarrow>
     heap_store (hp[visited := BoolArray vs]) visited i v = hp[visited := BoolArray (array_set vs i v)]"
  by (simp add: heap_store_def)

lemma floodFill_loop_heap_pure:
  assumes "visited < length hp" "binary \<noteq> visited"
  shows "floodFill_loop_heap (hp[visited := BoolArray vs]) binary visited w h allPoints boundaryPoints stack
           = (case floodFill_loop (heap_bools hp binary) w h vs allPoints boundaryPoints stack of
                (vs', allPoints', boundaryPoints') \<Rightarrow>
                  Some (hp[visited := BoolArray vs'], allPoints', boundaryPoints'))"
proof (induction "heap_bools hp binary" w h vs allPoints boundaryPoints stack
         rule: floodFill_loop.induct)
  case (1 w h vs allPoints boundaryPoints)
  show ?case
    by (subst floodFill_loop_heap.simps) (simp add: floodFill_loop.simps)
next
  case (2 w h vs allPoints boundaryPoints p stack)
  let ?bs = "heap_bools hp binary"
  let ?i = "pixelIndex w p"
  have rb: "heap_bools (hp[visited := BoolArray xs]) binary = ?bs" for xs
    using assms(2) by (rule heap_bools_other)
  have rv: "heap_bools (hp[visited := BoolArray xs]) visited = xs" for xs
    using assms(1) by (rule heap_bools_update)
  have st: "heap_store (hp[visited := BoolArray vs]) visited ?i True
              = hp[visited := BoolArray (array_set vs ?i True)]"
    using assms(1) by (rule heap_store_update)
  show ?case
  proof (cases "outOfBounds w h p \<or> array_get vs ?i \<or> \<not> array_get ?bs ?i")
    case True
    have "floodFill_loop_heap (hp[visited := BoolArray vs]) binary visited w h allPoints boundaryPoints (p # stack)
            = floodFill_loop_heap (hp[visited := BoolArray vs]) binary visited w h allPoints boundaryPoints stack"
      using True by (subst floodFill_loop_heap.simps) (simp add: rb rv)
    moreover have "floodFill_loop ?bs w h vs allPoints boundaryPoints (p # stack)
            = floodFill_loop ?bs w h vs allPoints boundaryPoints stack"
      using True by (simp add: floodFill_loop.simps)
    ultimately show ?thesis using "2.hyps"(1) [OF True] by simp
  next
    case False
    have "floodFill_loop_heap (hp[visited := BoolArray vs]) binary visited w h allPoints boundaryPoints (p # stack)
            = floodFill_loop_heap (hp[visited := BoolArray (array_set vs ?i True)]) binary visited w h
                (allPoints @ [p])
                (if isBoundary ?bs w h p then boundaryPoints @ [p] else boundaryPoints)
                (rev (neighbours8 p) @ stack)"
      using False by (subst floodFill_loop_heap.simps) (simp add: rb rv st)
    moreover have "floodFill_loop ?bs w h vs allPoints boundaryPoints (p # stack)
            = floodFill_loop ?bs w h (array_set vs ?i True) (allPoints @ [p])
                (if isBoundary ?bs w h p then boundaryPoints @ [p] else boundaryPoints)
                (rev (neighbours8 p) @ stack)"
      using False by (simp add: floodFill_loop.simps)
    ultimately show ?thesis using "2.hyps"(2) [OF False] by simp
  qed
qed

lemma floodFill_heap_pure:
  assumes "visited < length hp" "binary \<noteq> visited"
  shows "floodFill_heap (hp[visited := BoolArray vs]) binary visited x y w h
           = (case floodFill (heap_bools hp binary) vs x y w h of
                (vs', contour) \<Rightarrow> Some (hp[visited := BoolArray vs'], contour))"
  by (simp add: floodFill_heap_def floodFill_def floodFill_loop_heap_pure [OF assms]
        split: prod.splits)

lemma scanPixel_heap_pure:
  assumes "visited < length hp" "binary \<noteq> visited"
  shows "scanPixel_heap binary visited w h y x (hp[visited := BoolArray vs], contours)
           = (case scanPixel (heap_bools hp binary) w h y x (vs, contours) of
                (vs', contours') \<Rightarrow> Some (hp[visited := BoolArray vs'], contours'))"
proof -
  have rb: "heap_bools (hp[visited := BoolArray vs]) binary = heap_bools hp binary"
    using assms(2) by (rule heap_bools_other)
  have rv: "heap_bools (hp[visited := BoolArray vs]) visited = vs"
    using assms(1) by (rule heap_bools_update)
  show ?thesis
    by (simp add: scanPixel_heap_def scanPixel_def Let_def rb rv floodFill_heap_pure [OF assms]
          split: prod.splits)
qed

lemma scanRow_heap_pure:
  assumes "visited < length hp" "binary \<noteq> visited"
  shows "fold (\<lambda>x st. Option.bind st (scanPixel_heap binary visited w h y x)) xs
           (Some (hp[visited := BoolArray vs], contours))
           = (case fold (scanPixel (heap_bools hp binary) w h y) xs (vs, contours) of
                (vs', contours') \<Rightarrow> Some (hp[visited := BoolArray vs'], contours'))"
proof (induction xs arbitrary: vs contours)
  case Nil
  show ?case by simp
next
  case (Cons x xs)
  obtain vs1 contours1 where s: "scanPixel (heap_bools hp binary) w h y x (vs, contours) = (vs1, contours1)"
    by (cases "scanPixel (heap_bools hp binary) w h y x (vs, contours)")
  with scanPixel_heap_pure [OF assms, of w h y x vs contours]
  have "scanPixel_heap binary visited w h y x (hp[visited := BoolArray vs], contours)
          = Some (hp[visited := BoolArray vs1], contours1)" by simp
  with Cons.IH [of vs1 contours1] s show ?case by simp
qed

lemma scanRows_heap_pure:
  assumes "visited < length hp" "binary \<noteq> visited"
  shows "fold (\<lambda>y. fold (\<lambda>x st. Option.bind st (scanPixel_heap binary visited w h y x)) xs) ys
           (Some (hp[visited := BoolArray vs], contours))
           = (case fold (\<lambda>y. fold (scanPixel (heap_bools hp binary) w h y) xs) ys (vs, contours) of
                (vs', contours') \<Rightarrow> Some (hp[visited := BoolArray vs'], contours'))"
proof (induction ys arbitrary: vs contours)
  case Nil
  show ?case by simp
next
  case (Cons y ys)
  obtain vs1 contours1 where
    s: "fold (scanPixel (heap_bools hp binary) w h y) xs (vs, contours) = (vs1, contours1)"
    by (cases "fold (scanPixel (heap_bools hp binary) w h y) xs (vs, contours)")
  with scanRow_heap_pure [OF assms, of w h y xs vs contours]
  have "fold (\<lambda>x st. Option.bind st (scanPixel_heap binary visited w h y x)) xs
           (Some (hp[visited := BoolArray vs], contours))
          = Some (hp[visited := BoolArray vs1], contours1)" by simp
  with Cons.IH [of vs1 contours1] s show ?case by simp
qed

lemma findContours_heap_pure:
  assumes "binary < length hp"
  shows "\<exists>vs. findContours_heap hp binary w h
                = Some (hp @ [BoolArray vs], findContours (heap_bools hp binary) w h)"
proof -
  let ?v0 = "replicate (nat (w * h)) False"
  let ?hp1 = "hp @ [BoolArray ?v0]"
  have a: "length hp < length ?hp1" by simp
  have b: "binary \<noteq> length hp" using assms by simp
  have upd: "?hp1[length hp := BoolArray xs] = hp @ [BoolArray xs]" for xs by simp
  have rb: "heap_bools ?hp1 binary = heap_bools hp binary"
    using assms by (simp add: heap_bools_def nth_append)
  obtain vs contours where
    f: "fold (\<lambda>y. fold (scanPixel (heap_bools hp binary) w h y) [0 .. w - 1]) [0 .. h - 1] (?v0, [])
          = (vs, contours)"
    by (cases "fold (\<lambda>y. fold (scanPixel (heap_bools hp binary) w h y) [0 .. w - 1]) [0 .. h - 1] (?v0, [])")
  from scanRows_heap_pure [OF a b, of w h "[0 .. w - 1]" "[0 .. h - 1]" ?v0 "[]"]
  have "fold (\<lambda>y. fold (\<lambda>x st. Option.bind st (scanPixel_heap binary (length hp) w h y x)) [0 .. w - 1])
          [0 .. h - 1] (Some (?hp1, []))
        = Some (hp @ [BoolArray vs], contours)"
    unfolding upd rb f by simp
  moreover have "findContours (heap_bools hp binary) w h = contours"
    by (simp add: findContours_def f)
  ultimately show ?thesis
    by (auto simp: findContours_heap_def heap_alloc_def)
qed

lemma createBinaryImage_heap_pure:
  assumes "d < length hp" "hp ! d = Uint8ClampedArray bytes"
  shows "createBinaryImage_heap hp d w h
           = (length hp, hp @ [BoolArray (createBinaryImage bytes w h)])"
proof -
  have rd: "heap_bytes (hp @ [BoolArray xs]) d = bytes" for xs
    using assms by (simp add: heap_bytes_def nth_append)
  have rd0: "heap_bytes hp d = bytes" using assms by (simp add: heap_bytes_def)
  have st: "heap_store (hp @ [BoolArray xs]) (length hp) k v = hp @ [BoolArray (array_set xs k v)]" for xs k v
    by (simp add: heap_store_def)
  have "fold (\<lambda>k hp'. heap_store hp' (length hp) k (isDark (heap_bytes hp' d) (4 * k))) ks (hp @ [BoolArray xs])
          = hp @ [BoolArray (fold (\<lambda>k binary. array_set binary k (isDark bytes (4 * k))) ks xs)]" for ks xs
    by (induction ks arbitrary: xs) (simp_all add: rd st)
  then show ?thesis
    by (simp add: createBinaryImage_heap_def createBinaryImage_def heap_alloc_def rd0)
qed

lemma detectShapes_heap_pure:
  assumes "d < length hp" "hp ! d = Uint8ClampedArray bytes"
  shows "\<exists>res binary visited.
           detectShapes_heap startTime endTime hp d w h
             = Some (res, hp @ [BoolArray binary, BoolArray visited])
         \<and> detectShapes startTime endTime \<lparr>img_data = bytes, img_width = w, img_height = h\<rparr> = Some res"
proof -
  let ?b = "createBinaryImage bytes w h"
  let ?hp1 = "hp @ [BoolArray ?b]"
  have c: "createBinaryImage_heap hp d w h = (length hp, ?hp1)"
    using assms by (rule createBinaryImage_heap_pure)
  have "length hp < length ?hp1" by simp
  from findContours_heap_pure [OF this, of w h] obtain vs where
    f: "findContours_heap ?hp1 (length hp) w h
          = Some (?hp1 @ [BoolArray vs], findContours (heap_bools ?hp1 (length hp)) w h)" by blast
  have hb: "heap_bools ?hp1 (length hp) = ?b" by (simp add: heap_bools_def)
  from detectLoop_total obtain shps where l: "detectLoop (findContours ?b w h) [] = Some shps"
    by blast
  have "detectShapes_heap startTime endTime hp d w h
          = Some (\<lparr>shapes = shps, processingTime = endTime - startTime, imageWidth = w, imageHeight = h\<rparr>,
                  hp @ [BoolArray ?b, BoolArray vs])"
    by (simp add: detectShapes_heap_def c f hb l)
  moreover have "detectShapes startTime endTime \<lparr>img_data = bytes, img_width = w, img_height = h\<rparr>
          = Some \<lparr>shapes = shps, processingTime = endTime - startTime, imageWidth = w, imageHeight = h\<rparr>"
    by (simp add: detectShapes_def l)
  ultimately show ?thesis by blast
qed

section \<open>An example image\<close>

text \<open>
  A 5 by 6 image: a dark block with a light hole.  Dark pixels are opaque black, light pixels
  opaque white.
\<close>

definition example_mask :: "bool list" where
  "example_mask =
     [True, True, True, True, True,
      True, True, True, True, True,
      True, False, False, True, True,
      True, False, False, True, True,
      True, True, False, True, True,
      True, True, True, True, True]"

definition example_data :: "8 word list" where
  "example_data = concat (map (\<lambda>dark. if dark then [0, 0, 0, 255] else [255, 255, 255, 255]) example_mask)"

definition example_image :: image_data where
  "example_image = \<lparr>img_data = example_data, img_width = 5, img_height = 6\<rparr>"

definition pt :: "int \<Rightarrow> int \<Rightarrow> point" where
  "pt a b = \<lparr>px = a, py = b\<rparr>"

definition example_contour :: "point list" where
  "example_contour =
     [pt 0 0, pt 1 0, pt 1 1, pt 2 1, pt 3 1, pt 3 2, pt 3 3, pt 3 4, pt 3 5, pt 2 5, pt 1 5,
      pt 1 4, pt 0 4, pt 0 3, pt 0 2, pt 0 1, pt 2 0, pt 3 0, pt 4 0, pt 4 1, pt 4 2, pt 4 3,
      pt 4 4, pt 4 5, pt 0 5]"

definition example_simplified :: "point list" where
  "example_simplified = [pt 0 0, pt 3 1, pt 3 5, pt 0 1, pt 4 0, pt 4 5, pt 0 5]"

definition example_shape :: detected_shape where
  "example_shape =
     \<lparr>shapeType = Pentagon, confidence = Fin 0.75,
      boundingBox = \<lparr>box_x = Fin 0, box_y = Fin 0, box_width = Fin 5, box_height = Fin 6\<rparr>,
      center = \<lparr>cx = Fin 2.5, cy = Fin 3\<rparr>,
      area = Fin 31\<rparr>"

definition example_result :: detection_result where
  "example_result = \<lparr>shapes = [example_shape], processingTime = 1, imageWidth = 5, imageHeight = 6\<rparr>"

lemma example_binary: "createBinaryImage example_data 5 6 = example_mask"
  by code_simp

lemma example_contours: "findContours example_mask 5 6 = [example_contour]"
  by code_simp

lemma example_simplify: "simplifySq example_contour = example_simplified"
  by code_simp

lemma example_shoelace: "shoelace example_contour = 62"
  by code_simp

lemma example_bounds:
  "calculateBounds example_contour
     = \<lparr>minX = Fin 0, minY = Fin 0, bounds_width = Fin 5, bounds_height = Fin 6\<rparr>"
  by code_simp

lemma example_classify: "classifyShape example_simplified example_contour = Some example_shape"
proof -
  have "length example_simplified = 7" by (simp add: example_simplified_def)
  then have "classify example_simplified c = Some (Pentagon, Fin 0.75)" for c
    by (rule classify_seven)
  then show ?thesis
    by (simp add: classifyShape_def Let_def example_bounds calculateArea_Fin example_shoelace
          example_shape_def math_min_Fin)
qed

lemma example_detectLoop: "detectLoop [example_contour] [] = Some [example_shape]"
proof -
  have "length example_contour = 25" by (simp add: example_contour_def)
  moreover have "length example_simplified = 7" by (simp add: example_simplified_def)
  ultimately show ?thesis
    by (simp add: simplifyContour_simplifySq example_simplify example_classify)
qed

lemma example_detect: "detectShapes 0 1 example_image = Some example_result"
  by (simp add: detectShapes_def example_image_def example_binary example_contours
        example_detectLoop example_result_def del: detectLoop.simps)

text \<open>A 5 by 6 image with a solid dark block of 3 by 4 pixels in the middle.\<close>

definition block_mask :: "bool list" where
  "block_mask =
     [False, False, False, False, False,
      False, True, True, True, False,
      False, True, True, True, False,
      False, True, True, True, False,
      False, True, True, True, False,
      False, False, False, False, False]"

text \<open>The block is one component: 12 pixels, of which the 10 on its rim are boundary pixels.\<close>

definition block_points :: "point list" where
  "block_points =
     [pt 1 1, pt 2 2, pt 3 3, pt 3 4, pt 2 4, pt 1 4, pt 2 3, pt 1 3, pt 1 2, pt 2 1, pt 3 2,
      pt 3 1]"

definition block_boundary :: "point list" where
  "block_boundary =
     [pt 1 1, pt 3 3, pt 3 4, pt 2 4, pt 1 4, pt 1 3, pt 1 2, pt 2 1, pt 3 2, pt 3 1]"

lemma block_flood:
  "floodFill_loop block_mask 5 6 (replicate 30 False) [] [] [pt 1 1]
     = (block_mask, block_points, block_boundary)"
  by code_simp

lemma block_contours: "findContours block_mask 5 6 = []"
  by code_simp

lemma block_dark: "darkPixel block_mask 5 6 (pt 1 1)"
  by (simp add: darkPixel_def outOfBounds_def pixelIndex_def array_get_def block_mask_def pt_def)

lemma block_component:
  "card (component block_mask 5 6 (pt 1 1)) = 12
   \<and> card (boundaryPixels block_mask 5 6 (component block_mask 5 6 (pt 1 1))) = 10"
proof -
  have "\<forall>q \<in> component block_mask 5 6 (pt 1 1).
          \<not> array_get (replicate 30 False) (pixelIndex 5 q)"
    by (simp add: array_get_def)
  with block_dark have "fill_start block_mask 5 6 (replicate 30 False) (pt 1 1)"
    by (simp add: fill_start_def)
  note fc = floodFill_loop_component [OF this block_flood]
  have da: "distinct block_points" using fc by (rule conjunct1)
  have sa: "set block_points = component block_mask 5 6 (pt 1 1)" using fc by (elim conjE)
  have db: "distinct block_boundary" using fc by (elim conjE)
  have sb: "set block_boundary
              = boundaryPixels block_mask 5 6 (component block_mask 5 6 (pt 1 1))"
    using fc by (elim conjE)
  have "card (set block_points) = length block_points" using da by (rule distinct_card)
  moreover have "length block_points = 12" by (simp add: block_points_def)
  moreover have "card (set block_boundary) = length block_boundary" using db by (rule distinct_card)
  moreover have "length block_boundary = 10" by (simp add: block_boundary_def)
  ultimately show ?thesis using sa sb by simp
qed

lemma example_dark: "darkPixel example_mask 5 6 (pt 0 0)"
  by (simp add: darkPixel_def outOfBounds_def pixelIndex_def array_get_def example_mask_def pt_def)

section \<open>The claims\<close>

text \<open>
  C1.  As stated the claim fails: a solid block of 12 dark pixels is one component with 12
  pixels, more than 10, of which 10 are boundary pixels, and no contour is emitted for it.
\<close>

theorem block_discarded:
  "length (fst (snd (floodFill_loop block_mask 5 6 (replicate 30 False) [] [] [pt 1 1]))) = 12
   \<and> length (snd (snd (floodFill_loop block_mask 5 6 (replicate 30 False) [] [] [pt 1 1]))) = 10
   \<and> findContours block_mask 5 6 = []"
  by code_simp

text \<open>
  C1, amended.  \<open>findContours\<close> returns exactly the ordered boundaries of the connected
  components that have more than 10 boundary pixels.  For the component of a dark pixel
  \<open>p\<close>: a contour made of its boundary pixels is returned if and only if it has more than 10
  boundary pixels; every returned contour that contains a pixel of the component is that
  contour; the component has a boundary pixel, and no more boundary pixels than pixels, so a
  component with at most 10 pixels is discarded.  Every returned contour lists, each once,
  the boundary pixels of some component, more than 10 of them, and no two returned contours
  belong to the same component.
\<close>

theorem findContours_noise_filter:
  assumes "darkPixel binary w h p"
  shows "((\<exists>c \<in> set (findContours binary w h).
             set c = boundaryPixels binary w h (component binary w h p))
          \<longleftrightarrow> 10 < card (boundaryPixels binary w h (component binary w h p)))
       \<and> (\<forall>c \<in> set (findContours binary w h).
             set c \<inter> component binary w h p \<noteq> {} \<longrightarrow>
             set c = boundaryPixels binary w h (component binary w h p))
       \<and> boundaryPixels binary w h (component binary w h p) \<noteq> {}
       \<and> card (boundaryPixels binary w h (component binary w h p))
            \<le> card (component binary w h p)
       \<and> (\<forall>c \<in> set (findContours binary w h).
             distinct c \<and> 10 < length c
           \<and> (\<exists>q. darkPixel binary w h q
                  \<and> set c = boundaryPixels binary w h (component binary w h q)))
       \<and> distinct (map set (findContours binary w h))"
proof -
  let ?C = "component binary w h p"
  let ?B = "boundaryPixels binary w h ?C"
  let ?cs = "findContours binary w h"
  from findContours_scan_inv obtain visited where
    inv: "scan_inv binary w h {p. \<not> outOfBounds w h p} visited ?cs" by blast
  have "p \<in> {p. \<not> outOfBounds w h p}" using assms by (simp add: darkPixel_def)
  with inv have vp: "array_get visited (pixelIndex w p)" using assms by (rule scan_inv_seen)
  have known: "distinct c \<and> 10 < length c
           \<and> (\<exists>q. darkPixel binary w h q
                  \<and> set c = boundaryPixels binary w h (component binary w h q))"
    if "c \<in> set ?cs" for c
    using scan_inv_contour [OF inv that] unfolding contour_of_def by blast
  have a: "(\<exists>c \<in> set ?cs. set c = ?B) \<longleftrightarrow> 10 < card ?B"
  proof
    assume "\<exists>c \<in> set ?cs. set c = ?B"
    then obtain c where c: "c \<in> set ?cs" "set c = ?B" by blast
    from known [OF c(1)] have "distinct c" "10 < length c" by simp_all
    moreover from this(1) have "card (set c) = length c" by (rule distinct_card)
    ultimately show "10 < card ?B" using c(2) by simp
  next
    assume "10 < card ?B"
    with inv assms vp show "\<exists>c \<in> set ?cs. set c = ?B" by (rule scan_inv_emitted)
  qed
  have b: "set c = ?B" if c: "c \<in> set ?cs" and x: "set c \<inter> ?C \<noteq> {}" for c
  proof -
    from x obtain r where r: "r \<in> set c" "r \<in> ?C" by blast
    from known [OF c] obtain q where
      q: "set c = boundaryPixels binary w h (component binary w h q)" by blast
    with r(1) have "r \<in> component binary w h q" by (simp add: boundaryPixels_def)
    then have "component binary w h r = component binary w h q" by (rule component_eq)
    moreover from r(2) have "component binary w h r = ?C" by (rule component_eq)
    ultimately have "component binary w h q = ?C" by simp
    with q show ?thesis by simp
  qed
  from component_has_boundary [OF assms] obtain r where "r \<in> ?C" "isBoundary binary w h r"
    by blast
  then have "r \<in> ?B" by (simp add: boundaryPixels_def)
  then have c: "?B \<noteq> {}" by blast
  have "?B \<subseteq> ?C" by (auto simp: boundaryPixels_def)
  with finite_component [OF assms] have d: "card ?B \<le> card ?C" by (rule card_mono)
  have e: "distinct (map set ?cs)" using inv by (rule scan_inv_distinct)
  from a b c d known e show ?thesis by blast
qed

theorem findContours_noise_filter_witness:
  "darkPixel example_mask 5 6 (pt 0 0)
   \<and> example_contour \<in> set (findContours example_mask 5 6)
   \<and> set example_contour = boundaryPixels example_mask 5 6 (component example_mask 5 6 (pt 0 0))
   \<and> 10 < card (boundaryPixels example_mask 5 6 (component example_mask 5 6 (pt 0 0)))
   \<and> darkPixel block_mask 5 6 (pt 1 1)
   \<and> findContours block_mask 5 6 = []
   \<and> card (component block_mask 5 6 (pt 1 1)) = 12
   \<and> \<not> 10 < card (boundaryPixels block_mask 5 6 (component block_mask 5 6 (pt 1 1)))"
proof -
  note ex = findContours_noise_filter [OF example_dark]
  note bl = findContours_noise_filter [OF block_dark]
  have m: "example_contour \<in> set (findContours example_mask 5 6)"
    by (simp add: example_contours)
  have "pt 0 0 \<in> set example_contour" by (simp add: example_contour_def)
  moreover have "pt 0 0 \<in> component example_mask 5 6 (pt 0 0)" by (rule component_refl)
  ultimately have "set example_contour \<inter> component example_mask 5 6 (pt 0 0) \<noteq> {}" by blast
  with ex m have s: "set example_contour
      = boundaryPixels example_mask 5 6 (component example_mask 5 6 (pt 0 0))" by blast
  with ex m have g: "10 < card (boundaryPixels example_mask 5 6 (component example_mask 5 6 (pt 0 0)))"
    by blast
  from bl have "(\<exists>c \<in> set (findContours block_mask 5 6).
             set c = boundaryPixels block_mask 5 6 (component block_mask 5 6 (pt 1 1)))
          \<longleftrightarrow> 10 < card (boundaryPixels block_mask 5 6 (component block_mask 5 6 (pt 1 1)))"
    by (rule conjunct1)
  then have n: "\<not> 10 < card (boundaryPixels block_mask 5 6 (component block_mask 5 6 (pt 1 1)))"
    by (simp add: block_contours)
  from block_component have k: "card (component block_mask 5 6 (pt 1 1)) = 12" by (rule conjunct1)
  from example_dark m s g block_dark block_contours k n show ?thesis by blast
qed

text \<open>
  C2.  Every shape that \<open>classifyShape\<close> labels a triangle comes from a simplified polygon
  with exactly 3 vertices, and its confidence is exactly 0.95; the branch for 4 or 5
  vertices cannot be taken, because \<open>isTriangle\<close> is false unless there are 3 points.
\<close>

theorem classifyShape_triangle:
  assumes "classifyShape simplified originalContour = Some s" "shapeType s = Triangle"
  shows "length simplified = 3 \<and> confidence s = Fin 0.95
       \<and> \<not> (length simplified \<noteq> 3 \<and> isTriangle simplified)"
proof -
  from classifyShape_Some [OF assms(1)] assms(2) obtain conf where
    c: "classify simplified (circularityOf simplified originalContour) = Some (Triangle, conf)"
       "confidence s = math_min (Fin 1) conf" by auto
  from classify_Triangle [OF c(1)] c(2) show ?thesis
    by (auto simp: math_min_Fin dest: isTriangle_length)
qed

theorem classifyShape_triangle_witness:
  "\<exists>s. classifyShape [pt 0 0, pt 4 0, pt 0 3] [pt 0 0, pt 4 0, pt 0 3] = Some s
      \<and> shapeType s = Triangle
      \<and> length [pt 0 0, pt 4 0, pt 0 3] = 3 \<and> confidence s = Fin 0.95"
proof -
  let ?tri = "[pt 0 0, pt 4 0, pt 0 3]"
  have "classify ?tri (circularityOf ?tri ?tri) = Some (Triangle, Fin 0.95)"
    by (rule classify_three) simp
  from classifyShape_of_classify [OF this] obtain s where
    s: "classifyShape ?tri ?tri = Some s" "shapeType s = Triangle" by blast
  from classifyShape_triangle [OF s] s show ?thesis by blast
qed

text \<open>
  C3.  \<open>detectShapes\<close> returns, and every shape of its result has a finite confidence \<open>c\<close>
  with \<open>0 \<le> c \<le> 1\<close>.
\<close>

theorem detectShapes_confidence:
  "\<exists>res. detectShapes startTime endTime imageData = Some res
     \<and> (\<forall>s \<in> set (shapes res). \<exists>c. confidence s = Fin c \<and> 0 \<le> c \<and> c \<le> 1)"
proof -
  from detectShapes_total obtain res where res: "detectShapes startTime endTime imageData = Some res"
    by blast
  have "\<exists>c. confidence s = Fin c \<and> 0 \<le> c \<and> c \<le> 1" if "s \<in> set (shapes res)" for s
  proof -
    from detectShapes_origin [OF res that] obtain contour where
      "classifyShape (simplifySq contour) contour = Some s" by blast
    then show ?thesis by (rule classifyShape_confidence)
  qed
  with res show ?thesis by blast
qed

theorem detectShapes_confidence_witness:
  "example_shape \<in> set (shapes example_result)
     \<and> (\<exists>c. confidence example_shape = Fin c \<and> 0 \<le> c \<and> c \<le> 1)"
proof -
  from detectShapes_confidence [of 0 1 example_image] obtain res where
    r: "detectShapes 0 1 example_image = Some res" and
    b: "\<forall>s \<in> set (shapes res). \<exists>c. confidence s = Fin c \<and> 0 \<le> c \<and> c \<le> 1" by blast
  from r have "res = example_result" by (simp add: example_detect)
  moreover have "example_shape \<in> set (shapes example_result)" by (simp add: example_result_def)
  ultimately show ?thesis using b by blast
qed

text \<open>
  C4.  As stated the claim fails: the contour of the example image winds around the hole
  and around the block in the same direction, and the shape has area 31 in an image of 30
  pixels.
\<close>

theorem area_exceeds_image:
  "detectShapes 0 1 example_image = Some example_result
   \<and> shapes example_result = [example_shape]
   \<and> area example_shape = Fin 31
   \<and> imageWidth example_result * imageHeight example_result = 30
   \<and> \<not> num_le (area example_shape)
          (of_int_num (imageWidth example_result * imageHeight example_result))"
  by (simp add: example_detect example_result_def example_shape_def num_le_def)

text \<open>
  C4, amended.  \<open>detectShapes\<close> returns, and the area of every shape of its result is a
  finite number \<open>a\<close> with \<open>0 \<le> a \<le> W * H * (W - 1) * (H - 1) / 2\<close>, where \<open>W\<close> and \<open>H\<close> are
  the width and the height of the image.
\<close>

theorem detectShapes_area:
  "\<exists>res. detectShapes startTime endTime imageData = Some res
     \<and> (\<forall>s \<in> set (shapes res). \<exists>a. area s = Fin a \<and> 0 \<le> a
           \<and> a \<le> real_of_int (imageWidth res * imageHeight res
                                 * ((imageWidth res - 1) * (imageHeight res - 1))) / 2)"
proof -
  from detectShapes_total obtain res where res: "detectShapes startTime endTime imageData = Some res"
    by blast
  note f = detectShapes_fields [OF res]
  have "\<exists>a. area s = Fin a \<and> 0 \<le> a
           \<and> a \<le> real_of_int (imageWidth res * imageHeight res
                                 * ((imageWidth res - 1) * (imageHeight res - 1))) / 2"
    if "s \<in> set (shapes res)" for s
  proof -
    from detectShapes_contour [OF res that] obtain contour where
      c: "contour \<in> set (findContours
             (createBinaryImage (img_data imageData) (img_width imageData) (img_height imageData))
             (img_width imageData) (img_height imageData))"
         "classifyShape (simplifySq contour) contour = Some s" by blast
    from c(1) findContours_emitted have "contour_ok (img_width imageData) (img_height imageData) contour"
      by blast
    from calculateArea_bound [OF this] classifyShape_Some [OF c(2)] f show ?thesis by auto
  qed
  with res show ?thesis by blast
qed

theorem detectShapes_area_witness:
  "example_shape \<in> set (shapes example_result)
   \<and> (\<exists>a. area example_shape = Fin a \<and> 0 \<le> a
           \<and> a \<le> real_of_int (imageWidth example_result * imageHeight example_result
                 * ((imageWidth example_result - 1) * (imageHeight example_result - 1))) / 2)"
proof -
  from detectShapes_area [of 0 1 example_image] obtain res where
    r: "detectShapes 0 1 example_image = Some res" and
    b: "\<forall>s \<in> set (shapes res). \<exists>a. area s = Fin a \<and> 0 \<le> a
           \<and> a \<le> real_of_int (imageWidth res * imageHeight res
                                 * ((imageWidth res - 1) * (imageHeight res - 1))) / 2" by blast
  from r have "res = example_result" by (simp add: example_detect)
  moreover have "example_shape \<in> set (shapes example_result)" by (simp add: example_result_def)
  ultimately show ?thesis using b by blast
qed

text \<open>
  C5.  For a tolerance \<open>e \<ge> 0\<close> (the pipeline uses 2), \<open>simplifyContour\<close> returns; an input
  of at most 2 points is returned unchanged, and for a longer input the result is a
  subsequence of the input with at least 2 points whose first and last elements are the
  first and last points of the input.
\<close>

theorem simplifyContour_subsequence:
  assumes "0 \<le> e"
  shows "\<exists>r. simplifyContour contour (Fin e) = Some r
           \<and> (length contour \<le> 2 \<longrightarrow> r = contour)
           \<and> (2 < length contour \<longrightarrow>
                 subseq r contour \<and> 2 \<le> length r \<and> hd r = hd contour \<and> last r = last contour)"
proof -
  from simplifyContour_returns [OF assms, of contour] obtain r where
    "simplifyContour contour (Fin e) = Some r" "simplified_ok contour r" by blast
  then show ?thesis by (auto simp: simplified_ok_def split: if_splits)
qed

theorem simplifyContour_subsequence_witness:
  "(0::real) \<le> 2
   \<and> simplifyContour [pt 0 0, pt 7 1] (Fin 2) = Some [pt 0 0, pt 7 1]
   \<and> (\<exists>r. simplifyContour [pt 0 0, pt 5 5, pt 10 0] (Fin 2) = Some r
          \<and> subseq r [pt 0 0, pt 5 5, pt 10 0] \<and> 2 \<le> length r
          \<and> hd r = pt 0 0 \<and> last r = pt 10 0)"
proof -
  have h: "(0::real) \<le> 2" by simp
  from simplifyContour_subsequence [OF h, of "[pt 0 0, pt 7 1]"]
  have "simplifyContour [pt 0 0, pt 7 1] (Fin 2) = Some [pt 0 0, pt 7 1]" by auto
  moreover from simplifyContour_subsequence [OF h, of "[pt 0 0, pt 5 5, pt 10 0]"]
  have "\<exists>r. simplifyContour [pt 0 0, pt 5 5, pt 10 0] (Fin 2) = Some r
          \<and> subseq r [pt 0 0, pt 5 5, pt 10 0] \<and> 2 \<le> length r
          \<and> hd r = pt 0 0 \<and> last r = pt 10 0" by simp
  ultimately show ?thesis by simp
qed

text \<open>
  C6.  For a nonempty list of distinct boundary points, \<open>orderBoundaryPoints\<close> (a total
  function) returns a sequence that contains each boundary point exactly once, beginning
  with the first one.  Its loop ends because every iteration removes a point: from a
  nonempty remaining set a point of the set is selected, by the fallback if no point is
  near, and deleting it makes the set smaller.
\<close>

theorem orderBoundaryPoints_permutation:
  assumes "boundaryPoints \<noteq> []" "distinct boundaryPoints"
  shows "mset (orderBoundaryPoints boundaryPoints allPoints) = mset boundaryPoints
       \<and> distinct (orderBoundaryPoints boundaryPoints allPoints)
       \<and> hd (orderBoundaryPoints boundaryPoints allPoints) = hd boundaryPoints
       \<and> (\<exists>nearest \<in> set (r # remaining).
             selectNearest current (r # remaining) = Some nearest
           \<and> length (set_delete (r # remaining) nearest) < length (r # remaining))"
proof -
  have m: "mset (orderBoundaryPoints boundaryPoints allPoints) = mset boundaryPoints"
    using assms by (rule mset_orderBoundaryPoints)
  then have d: "distinct (orderBoundaryPoints boundaryPoints allPoints)"
    using assms(2) mset_eq_imp_distinct_iff by blast
  obtain b bs where bp: "boundaryPoints = b # bs" using assms(1) by (cases boundaryPoints) auto
  from orderLoop_prefix [of "[b]" "new_Set bs" b] obtain zs where
    zs: "orderLoop [b] (new_Set bs) b = b # zs" by auto
  then have h: "hd (orderBoundaryPoints boundaryPoints allPoints) = hd boundaryPoints"
    by (simp add: orderBoundaryPoints_def bp Let_def)
  have "r # remaining \<noteq> []" by simp
  from selectNearest_Some [OF this, of current] obtain n where
    n: "selectNearest current (r # remaining) = Some n" "n \<in> set (r # remaining)" by blast
  from length_set_delete [OF n(2)] n
  have s: "\<exists>nearest \<in> set (r # remaining).
             selectNearest current (r # remaining) = Some nearest
           \<and> length (set_delete (r # remaining) nearest) < length (r # remaining)" by blast
  from m d h s show ?thesis by (intro conjI)
qed

theorem orderBoundaryPoints_permutation_witness:
  "mset (orderBoundaryPoints [pt 0 0, pt 5 5, pt 1 0] []) = mset [pt 0 0, pt 5 5, pt 1 0]
   \<and> distinct (orderBoundaryPoints [pt 0 0, pt 5 5, pt 1 0] [])
   \<and> hd (orderBoundaryPoints [pt 0 0, pt 5 5, pt 1 0] []) = pt 0 0
   \<and> (\<exists>nearest \<in> set [pt 5 5, pt 9 9].
          selectNearest (pt 0 0) [pt 5 5, pt 9 9] = Some nearest
        \<and> length (set_delete [pt 5 5, pt 9 9] nearest) < length [pt 5 5, pt 9 9])"
proof -
  have h1: "[pt 0 0, pt 5 5, pt 1 0] \<noteq> []" by simp
  have h2: "distinct [pt 0 0, pt 5 5, pt 1 0]" by (simp add: pt_def)
  from orderBoundaryPoints_permutation [OF h1 h2, of "[]" "pt 5 5" "[pt 9 9]" "pt 0 0"]
  show ?thesis by simp
qed

text \<open>
  C7.  \<open>detectShapes\<close> reads nothing but its argument and the clock: the fields \<open>canvas\<close> and
  \<open>ctx\<close> of the detector are not read, and every array it writes is allocated by the call.
  On the heap model a call on an image whose buffer is the object at \<open>d\<close> returns; a
  second call on the same buffer, in the heap that the first call left behind and with any
  other clock readings, returns too, and so does a call in any other heap on a buffer with
  the same bytes.  The results of the three calls have the same shapes, element for
  element, and the same dimensions; they differ at most in \<open>processingTime\<close>.
\<close>

theorem detectShapes_deterministic:
  assumes "d < length hp" "hp ! d = Uint8ClampedArray bytes"
    and "d' < length hp'" "hp' ! d' = Uint8ClampedArray bytes"
  shows "\<exists>res1 hp1 res2 hp2 res3 hp3.
           detectShapes_heap start1 end1 hp d w h = Some (res1, hp1)
         \<and> detectShapes_heap start2 end2 hp1 d w h = Some (res2, hp2)
         \<and> detectShapes_heap start3 end3 hp' d' w h = Some (res3, hp3)
         \<and> shapes res2 = shapes res1 \<and> shapes res3 = shapes res1
         \<and> imageWidth res2 = imageWidth res1 \<and> imageWidth res3 = imageWidth res1
         \<and> imageHeight res2 = imageHeight res1 \<and> imageHeight res3 = imageHeight res1
         \<and> processingTime res1 = end1 - start1 \<and> processingTime res2 = end2 - start2
         \<and> processingTime res3 = end3 - start3"
proof -
  let ?img = "\<lparr>img_data = bytes, img_width = w, img_height = h\<rparr>"
  from detectShapes_heap_pure [OF assms(1,2), of start1 end1 w h]
  obtain res1 binary visited where
    r1: "detectShapes_heap start1 end1 hp d w h
           = Some (res1, hp @ [BoolArray binary, BoolArray visited])"
    and p1: "detectShapes start1 end1 ?img = Some res1"
    by blast
  let ?hp1 = "hp @ [BoolArray binary, BoolArray visited]"
  have d1: "d < length ?hp1" using assms(1) by simp
  have b1: "?hp1 ! d = Uint8ClampedArray bytes" using assms(1,2) by (simp add: nth_append)
  from detectShapes_heap_pure [OF d1 b1, of start2 end2 w h]
  obtain res2 hp2 where
    r2: "detectShapes_heap start2 end2 ?hp1 d w h = Some (res2, hp2)"
    and p2: "detectShapes start2 end2 ?img = Some res2"
    by blast
  from detectShapes_heap_pure [OF assms(3,4), of start3 end3 w h]
  obtain res3 hp3 where
    r3: "detectShapes_heap start3 end3 hp' d' w h = Some (res3, hp3)"
    and p3: "detectShapes start3 end3 ?img = Some res3"
    by blast
  from detectShapes_fields [OF p1]
  have f1: "imageWidth res1 = w" "imageHeight res1 = h" "processingTime res1 = end1 - start1"
    by simp_all
  from detectShapes_fields [OF p2]
  have f2: "imageWidth res2 = w" "imageHeight res2 = h" "processingTime res2 = end2 - start2"
    by simp_all
  from detectShapes_fields [OF p3]
  have f3: "imageWidth res3 = w" "imageHeight res3 = h" "processingTime res3 = end3 - start3"
    by simp_all
  have s2: "shapes res2 = shapes res1" using p1 p2 by (rule detectShapes_shapes)
  have s3: "shapes res3 = shapes res1" using p1 p3 by (rule detectShapes_shapes)
  from r1 r2 r3 s2 s3 f1 f2 f3 show ?thesis by simp
qed

theorem detectShapes_deterministic_witness:
  "0 < length [Uint8ClampedArray example_data]
   \<and> [Uint8ClampedArray example_data] ! 0 = Uint8ClampedArray example_data
   \<and> 1 < length [BoolArray [], Uint8ClampedArray example_data]
   \<and> [BoolArray [], Uint8ClampedArray example_data] ! 1 = Uint8ClampedArray example_data
   \<and> (\<exists>res1 hp1 res2 hp2 res3 hp3.
         detectShapes_heap 0 1 [Uint8ClampedArray example_data] 0 5 6 = Some (res1, hp1)
       \<and> detectShapes_heap 7 9 hp1 0 5 6 = Some (res2, hp2)
       \<and> detectShapes_heap 3 8 [BoolArray [], Uint8ClampedArray example_data] 1 5 6
           = Some (res3, hp3)
       \<and> res1 = example_result
       \<and> shapes res2 = [example_shape] \<and> shapes res3 = [example_shape]
       \<and> processingTime res1 = 1 \<and> processingTime res2 = 2 \<and> processingTime res3 = 5)"
proof -
  have h1: "0 < length [Uint8ClampedArray example_data]" by simp
  have h2: "[Uint8ClampedArray example_data] ! 0 = Uint8ClampedArray example_data" by simp
  have h3: "1 < length [BoolArray [], Uint8ClampedArray example_data]" by simp
  have h4: "[BoolArray [], Uint8ClampedArray example_data] ! 1 = Uint8ClampedArray example_data"
    by simp
  from detectShapes_deterministic [OF h1 h2 h3 h4, of 0 1 5 6 7 9 3 8]
  obtain res1 hp1 res2 hp2 res3 hp3 where
    r: "detectShapes_heap 0 1 [Uint8ClampedArray example_data] 0 5 6 = Some (res1, hp1)"
       "detectShapes_heap 7 9 hp1 0 5 6 = Some (res2, hp2)"
       "detectShapes_heap 3 8 [BoolArray [], Uint8ClampedArray example_data] 1 5 6
           = Some (res3, hp3)"
    and s: "shapes res2 = shapes res1" "shapes res3 = shapes res1"
    and t: "processingTime res1 = 1 - 0" "processingTime res2 = 9 - 7" "processingTime res3 = 8 - 3"
    by blast
  from detectShapes_heap_pure [OF h1 h2, of 0 1 5 6] r(1)
  have "detectShapes 0 1 \<lparr>img_data = example_data, img_width = 5, img_height = 6\<rparr> = Some res1"
    by auto
  then have e: "res1 = example_result" using example_detect by (simp add: example_image_def)
  then have "shapes res1 = [example_shape]" by (simp add: example_result_def)
  with s have s': "shapes res2 = [example_shape]" "shapes res3 = [example_shape]" by simp_all
  from t have t': "processingTime res1 = 1" "processingTime res2 = 2" "processingTime res3 = 5"
    by simp_all
  from h1 h2 h3 h4 r e s' t' show ?thesis by blast
qed

text \<open>
  C8.  \<open>detectShapes\<close> returns, and the center of every shape of its result lies within the
  shape's bounding box, in both coordinates.
\<close>

theorem detectShapes_center_in_box:
  "\<exists>res. detectShapes startTime endTime imageData = Some res
     \<and> (\<forall>s \<in> set (shapes res).
           num_le (box_x (boundingBox s)) (cx (center s))
         \<and> num_le (cx (center s)) (num_add (box_x (boundingBox s)) (box_width (boundingBox s)))
         \<and> num_le (box_y (boundingBox s)) (cy (center s))
         \<and> num_le (cy (center s)) (num_add (box_y (boundingBox s)) (box_height (boundingBox s))))"
proof -
  from detectShapes_total obtain res where res: "detectShapes startTime endTime imageData = Some res"
    by blast
  have "num_le (box_x (boundingBox s)) (cx (center s))
         \<and> num_le (cx (center s)) (num_add (box_x (boundingBox s)) (box_width (boundingBox s)))
         \<and> num_le (box_y (boundingBox s)) (cy (center s))
         \<and> num_le (cy (center s)) (num_add (box_y (boundingBox s)) (box_height (boundingBox s)))"
    if "s \<in> set (shapes res)" for s
  proof -
    from detectShapes_origin [OF res that] obtain contour where
      c: "3 \<le> length contour" "classifyShape (simplifySq contour) contour = Some s" by blast
    from c(1) have "contour \<noteq> []" by auto
    with c(2) show ?thesis by (rule classifyShape_center)
  qed
  with res show ?thesis by blast
qed

theorem detectShapes_center_in_box_witness:
  "example_shape \<in> set (shapes example_result)
   \<and> num_le (box_x (boundingBox example_shape)) (cx (center example_shape))
   \<and> num_le (cx (center example_shape))
        (num_add (box_x (boundingBox example_shape)) (box_width (boundingBox example_shape)))
   \<and> num_le (box_y (boundingBox example_shape)) (cy (center example_shape))
   \<and> num_le (cy (center example_shape))
        (num_add (box_y (boundingBox example_shape)) (box_height (boundingBox example_shape)))"
proof -
  from detectShapes_center_in_box [of 0 1 example_image] obtain res where
    r: "detectShapes 0 1 example_image = Some res" and
    b: "\<forall>s \<in> set (shapes res).
           num_le (box_x (boundingBox s)) (cx (center s))
         \<and> num_le (cx (center s)) (num_add (box_x (boundingBox s)) (box_width (boundingBox s)))
         \<and> num_le (box_y (boundingBox s)) (cy (center s))
         \<and> num_le (cy (center s)) (num_add (box_y (boundingBox s)) (box_height (boundingBox s)))"
    by blast
  from r have "res = example_result" by (simp add: example_detect)
  moreover have "example_shape \<in> set (shapes example_result)" by (simp add: example_result_def)
  ultimately show ?thesis using b by blast
qed

text \<open>
  C9.  A call of \<open>detectShapes\<close> on an image whose buffer is the object at \<open>d\<close> returns, with
  the result of the state-free model; the buffer has the same contents after the call as
  before it, and so has every other object that existed before the call: the heap has only
  grown by the two arrays that the call allocated.
\<close>

theorem detectShapes_preserves_buffer:
  assumes "d < length hp" "hp ! d = Uint8ClampedArray bytes"
  shows "\<exists>res hp'. detectShapes_heap startTime endTime hp d w h = Some (res, hp')
           \<and> hp' ! d = Uint8ClampedArray bytes
           \<and> take (length hp) hp' = hp
           \<and> detectShapes startTime endTime \<lparr>img_data = bytes, img_width = w, img_height = h\<rparr>
                = Some res"
proof -
  from detectShapes_heap_pure [OF assms, of startTime endTime w h]
  obtain res binary visited where
    r: "detectShapes_heap startTime endTime hp d w h
          = Some (res, hp @ [BoolArray binary, BoolArray visited])"
       "detectShapes startTime endTime \<lparr>img_data = bytes, img_width = w, img_height = h\<rparr> = Some res"
    by blast
  have "(hp @ [BoolArray binary, BoolArray visited]) ! d = Uint8ClampedArray bytes"
    using assms by (simp add: nth_append)
  moreover have "take (length hp) (hp @ [BoolArray binary, BoolArray visited]) = hp" by simp
  ultimately show ?thesis using r by blast
qed

theorem detectShapes_preserves_buffer_witness:
  "0 < length [Uint8ClampedArray example_data]
   \<and> [Uint8ClampedArray example_data] ! 0 = Uint8ClampedArray example_data
   \<and> (\<exists>hp'. detectShapes_heap 0 1 [Uint8ClampedArray example_data] 0 5 6 = Some (example_result, hp')
          \<and> hp' ! 0 = Uint8ClampedArray example_data
          \<and> take (length [Uint8ClampedArray example_data]) hp' = [Uint8ClampedArray example_data])"
proof -
  have h1: "0 < length [Uint8ClampedArray example_data]" by simp
  have h2: "[Uint8ClampedArray example_data] ! 0 = Uint8ClampedArray example_data" by simp
  from detectShapes_preserves_buffer [OF h1 h2, of 0 1 5 6] obtain res hp' where
    r: "detectShapes_heap 0 1 [Uint8ClampedArray example_data] 0 5 6 = Some (res, hp')"
       "hp' ! 0 = Uint8ClampedArray example_data"
       "take (length [Uint8ClampedArray example_data]) hp' = [Uint8ClampedArray example_data]"
       "detectShapes 0 1 \<lparr>img_data = example_data, img_width = 5, img_height = 6\<rparr> = Some res"
    by blast
  from r(4) have "res = example_result"
    using example_detect by (simp add: example_image_def)
  with r(1-3) h1 h2 show ?thesis by blast
qed

text \<open>
  C10.  In a polygon whose cyclically consecutive vertices are distinct, at every vertex
  the divisor \<open>mag1 * mag2\<close> of \<open>calculateAngles\<close> is a nonzero finite number, the argument
  of \<open>acos\<close> is a finite number in \<open>[-1, 1]\<close>, and the angle is a finite number; and
  \<open>pointToLineDistance\<close> always yields a finite number, which for a segment of length zero
  is the distance to its single point.
\<close>

theorem angles_and_distance_defined:
  assumes "\<forall>i < length points. points ! i \<noteq> points ! ((i + 1) mod length points)"
  shows "(\<forall>i < length points.
            (\<exists>m. magnitudes points i = Fin m \<and> m \<noteq> 0)
          \<and> (\<exists>c. clampedCos points i = Fin c \<and> - 1 \<le> c \<and> c \<le> 1)
          \<and> (\<exists>a. calculateAngles points ! i = Fin a))
       \<and> (\<forall>p a b. \<exists>d. pointToLineDistance p a b = Fin d \<and> 0 \<le> d)
       \<and> (\<forall>p a. pointToLineDistance p a a
                    = Fin (sqrt (real_of_int ((px p - px a)\<^sup>2 + (py p - py a)\<^sup>2))))"
proof -
  have "(\<exists>m. magnitudes points i = Fin m \<and> m \<noteq> 0)
          \<and> (\<exists>c. clampedCos points i = Fin c \<and> - 1 \<le> c \<and> c \<le> 1)
          \<and> (\<exists>a. calculateAngles points ! i = Fin a)" if i: "i < length points" for i
  proof -
    have prev: "points ! ((i + length points - 1) mod length points) \<noteq> points ! i"
      using assms i by (rule cyclic_prev)
    have nxt: "points ! ((i + 1) mod length points) \<noteq> points ! i"
      using assms i by metis
    from magnitudes_Fin [OF prev nxt] obtain m where m: "magnitudes points i = Fin m" "0 < m"
      by blast
    then have m0: "m \<noteq> 0" by simp
    from clampedCos_Fin [OF m(1) m0] obtain c where
      c: "clampedCos points i = Fin c" "- 1 \<le> c" "c \<le> 1" by blast
    have "calculateAngles points ! i = Fin (arccos c * (180 / pi))"
      using i angle_Fin [OF c] by (simp add: calculateAngles_def)
    with m m0 c show ?thesis by blast
  qed
  then have A: "\<forall>i < length points.
            (\<exists>m. magnitudes points i = Fin m \<and> m \<noteq> 0)
          \<and> (\<exists>c. clampedCos points i = Fin c \<and> - 1 \<le> c \<and> c \<le> 1)
          \<and> (\<exists>a. calculateAngles points ! i = Fin a)"
    by (intro allI impI)
  have B: "\<forall>p a b. \<exists>d. pointToLineDistance p a b = Fin d \<and> 0 \<le> d"
    by (intro allI pointToLineDistance_Fin)
  have C: "\<forall>p a. pointToLineDistance p a a
                    = Fin (sqrt (real_of_int ((px p - px a)\<^sup>2 + (py p - py a)\<^sup>2)))"
    by (intro allI pointToLineDistance_degenerate)
  from A B C show ?thesis by (intro conjI)
qed

theorem angles_and_distance_defined_witness:
  "(\<exists>m. magnitudes [pt 0 0, pt 4 0, pt 0 3] 1 = Fin m \<and> m \<noteq> 0)
   \<and> (\<exists>c. clampedCos [pt 0 0, pt 4 0, pt 0 3] 1 = Fin c \<and> - 1 \<le> c \<and> c \<le> 1)
   \<and> (\<exists>a. calculateAngles [pt 0 0, pt 4 0, pt 0 3] ! 1 = Fin a)
   \<and> pointToLineDistance (pt 3 4) (pt 0 0) (pt 0 0) = Fin 5"
proof -
  have h: "\<forall>i < length [pt 0 0, pt 4 0, pt 0 3].
             [pt 0 0, pt 4 0, pt 0 3] ! i \<noteq> [pt 0 0, pt 4 0, pt 0 3] ! ((i + 1) mod length [pt 0 0, pt 4 0, pt 0 3])"
  proof (intro allI impI)
    fix i :: nat
    assume "i < length [pt 0 0, pt 4 0, pt 0 3]"
    then have "i = 0 \<or> i = 1 \<or> i = 2" by auto
    then show "[pt 0 0, pt 4 0, pt 0 3] ! i
                 \<noteq> [pt 0 0, pt 4 0, pt 0 3] ! ((i + 1) mod length [pt 0 0, pt 4 0, pt 0 3])"
      by (auto simp: pt_def)
  qed
  note inst = angles_and_distance_defined [OF h]
  have one: "1 < length [pt 0 0, pt 4 0, pt 0 3]" by simp
  from inst [THEN conjunct1, THEN spec, THEN mp, OF one]
  have a: "(\<exists>m. magnitudes [pt 0 0, pt 4 0, pt 0 3] 1 = Fin m \<and> m \<noteq> 0)
          \<and> (\<exists>c. clampedCos [pt 0 0, pt 4 0, pt 0 3] 1 = Fin c \<and> - 1 \<le> c \<and> c \<le> 1)
          \<and> (\<exists>a. calculateAngles [pt 0 0, pt 4 0, pt 0 3] ! 1 = Fin a)" .
  from inst [THEN conjunct2, THEN conjunct2, THEN spec, THEN spec, of "pt 3 4" "pt 0 0"]
  have d: "pointToLineDistance (pt 3 4) (pt 0 0) (pt 0 0)
             = Fin (sqrt (real_of_int ((px (pt 3 4) - px (pt 0 0))\<^sup>2 + (py (pt 3 4) - py (pt 0 0))\<^sup>2)))" .
  have "sqrt (real_of_int ((px (pt 3 4) - px (pt 0 0))\<^sup>2 + (py (pt 3 4) - py (pt 0 0))\<^sup>2)) = sqrt (5\<^sup>2)"
    by (simp add: pt_def)
  also have "\<dots> = 5" by simp
  finally have "pointToLineDistance (pt 3 4) (pt 0 0) (pt 0 0) = Fin 5"
    using d by (simp only:)
  with a show ?thesis by simp
qed

end
